theory Spec2Isabelle
  imports Main "HOL-Library.Word" "HOL-Library.Sublist"
begin

unbundle bit_operations_syntax

section \<open>Memory model\<close>

text \<open>
  \<^verbatim>\<open>base32enc\<close> of \<^verbatim>\<open>src/tpm2-totp.c\<close> works on two C objects: the input
  \<^verbatim>\<open>in\<close>, which is only read, and the buffer \<^verbatim>\<open>r\<close> it allocates; \<^verbatim>\<open>qrencode\<close> fills a
  buffer \<^verbatim>\<open>qrpic\<close> in the same way. An access outside
  an object is undefined behaviour in C; here it is a value of type \<open>fault\<close>, carrying the
  offending index. The buffer comes from \<^verbatim>\<open>malloc\<close>, so a cell holds \<open>None\<close> until it
  is written, and reading such a cell is a fault as well. The allocation itself is taken
  to succeed (the source does not test the pointer).
\<close>

datatype fault =
    In_OOB nat      \<comment> \<open>read of \<^verbatim>\<open>in[j]\<close> outside the input object\<close>
  | Out_OOB nat     \<comment> \<open>access to \<^verbatim>\<open>r[i]\<close> outside the allocated buffer\<close>
  | Out_Uninit nat  \<comment> \<open>read of a cell of \<^verbatim>\<open>r\<close> that was never written\<close>
  | Tab_OOB nat     \<comment> \<open>read outside the table \<^verbatim>\<open>base32\<close>\<close>
  | Data_OOB nat    \<comment> \<open>read outside the module array of a QR code\<close>

type_synonym byte = "8 word"
type_synonym buf = "byte option list"

definition bindE :: "fault + 'a \<Rightarrow> ('a \<Rightarrow> fault + 'b) \<Rightarrow> fault + 'b" where
  "bindE m f = (case m of Inl e \<Rightarrow> Inl e | Inr x \<Rightarrow> f x)"

definition rd_in :: "byte list \<Rightarrow> nat \<Rightarrow> fault + byte" where
  "rd_in inp j = (if j < length inp then Inr (inp ! j) else Inl (In_OOB j))"

definition wr :: "buf \<Rightarrow> nat \<Rightarrow> byte \<Rightarrow> fault + buf" where
  "wr r i v = (if i < length r then Inr (r[i := Some v]) else Inl (Out_OOB i))"

definition rd :: "buf \<Rightarrow> nat \<Rightarrow> fault + byte" where
  "rd r i =
     (if i < length r
      then (case r ! i of None \<Rightarrow> Inl (Out_Uninit i) | Some v \<Rightarrow> Inr v)
      else Inl (Out_OOB i))"

text \<open>\<^verbatim>\<open>r[i] |= v\<close>: the cell is read, then written.\<close>

definition or_at :: "buf \<Rightarrow> nat \<Rightarrow> byte \<Rightarrow> fault + buf" where
  "or_at r i v = bindE (rd r i) (\<lambda>old. wr r i (old OR v))"

text \<open>
  The right-hand sides of the assignments. The operand \<^verbatim>\<open>in[j]\<close> is a \<^verbatim>\<open>uint8_t\<close>,
  promoted to \<^verbatim>\<open>int\<close> before the shift; \<^verbatim>\<open>&\<close> binds weaker than the shifts, so
  \<^verbatim>\<open>in[j] << 2 & 0x1F\<close> is \<^verbatim>\<open>(in[j] << 2) & 0x1F\<close>; the result is stored in an
  \<^verbatim>\<open>unsigned char\<close>. The promoted value is below \<open>2 ^ 8\<close> and is shifted left by
  at most 4, so the sign bit of the 32-bit \<^verbatim>\<open>int\<close> is never reached and a 32-bit word
  computes what the \<^verbatim>\<open>int\<close> does.
\<close>

definition c_shr :: "byte \<Rightarrow> nat \<Rightarrow> byte" where
  "c_shr b n = ucast (drop_bit n (ucast b :: 32 word) AND 0x1F)"

definition c_shl :: "byte \<Rightarrow> nat \<Rightarrow> byte" where
  "c_shl b n = ucast (push_bit n (ucast b :: 32 word) AND 0x1F)"

definition c_low :: "byte \<Rightarrow> byte" where
  "c_low b = ucast ((ucast b :: 32 word) AND 0x1F)"

text \<open>The rule that lets a recursive call under \<open>bindE\<close> use the result bound before it.\<close>

lemma bindE_cong [fundef_cong]:
  "m = m' \<Longrightarrow> (\<And>x. m' = Inr x \<Longrightarrow> f x = f' x) \<Longrightarrow> bindE m f = bindE m' f'"
  by (cases m') (simp_all add: bindE_def)

section \<open>The encoder\<close>

text \<open>
  The \<^verbatim>\<open>while (1)\<close> loop of \<^verbatim>\<open>base32enc\<close> (lines 140 to 158). One pass consumes up
  to five input bytes and leaves after any of them when \<^verbatim>\<open>++j >= in_size\<close>. The
  pair \<^verbatim>\<open>i++\<close> \dots \<^verbatim>\<open>i--\<close> around each test means that the cell written last is or-ed
  into when the loop goes on. \<open>i\<close> and \<open>j\<close> are the values at the head of the pass.
\<close>

function enc_loop :: "byte list \<Rightarrow> nat \<Rightarrow> buf \<Rightarrow> nat \<Rightarrow> nat \<Rightarrow> fault + (buf \<times> nat)" where
  "enc_loop inp in_size r i j =
     bindE (rd_in inp j) (\<lambda>b0.
     bindE (wr r i (c_shr b0 3)) (\<lambda>r.
     bindE (wr r (i + 1) (c_shl b0 2)) (\<lambda>r.
     if j + 1 \<ge> in_size then Inr (r, i + 2) else
     bindE (rd_in inp (j + 1)) (\<lambda>b1.
     bindE (or_at r (i + 1) (c_shr b1 6)) (\<lambda>r.
     bindE (wr r (i + 2) (c_shr b1 1)) (\<lambda>r.
     bindE (wr r (i + 3) (c_shl b1 4)) (\<lambda>r.
     if j + 2 \<ge> in_size then Inr (r, i + 4) else
     bindE (rd_in inp (j + 2)) (\<lambda>b2.
     bindE (or_at r (i + 3) (c_shr b2 4)) (\<lambda>r.
     bindE (wr r (i + 4) (c_shl b2 1)) (\<lambda>r.
     if j + 3 \<ge> in_size then Inr (r, i + 5) else
     bindE (rd_in inp (j + 3)) (\<lambda>b3.
     bindE (or_at r (i + 4) (c_shr b3 7)) (\<lambda>r.
     bindE (wr r (i + 5) (c_shr b3 2)) (\<lambda>r.
     bindE (wr r (i + 6) (c_shl b3 3)) (\<lambda>r.
     if j + 4 \<ge> in_size then Inr (r, i + 7) else
     bindE (rd_in inp (j + 4)) (\<lambda>b4.
     bindE (or_at r (i + 6) (c_shr b4 5)) (\<lambda>r.
     bindE (wr r (i + 7) (c_low b4)) (\<lambda>r.
     if j + 5 \<ge> in_size then Inr (r, i + 8) else
     enc_loop inp in_size r (i + 8) (j + 5))))))))))))))))))"
  by pat_completeness auto
termination
  by (relation "measure (\<lambda>(inp, in_size, r, i, j). in_size - j)") auto

declare enc_loop.simps [simp del]

text \<open>The static table \<^verbatim>\<open>base32[]\<close>: 32 letters and the terminating NUL of the literal.\<close>

definition base32 :: "byte list" where
  "base32 = map of_char ''ABCDEFGHIJKLMNOPQRSTUVWXYZ234567'' @ [0]"

definition rd_tab :: "byte \<Rightarrow> fault + byte" where
  "rd_tab v = (if unat v < length base32 then Inr (base32 ! unat v) else Inl (Tab_OOB (unat v)))"

text \<open>\<^verbatim>\<open>for (j = 0; j < i; j++) r[j] = base32[r[j]];\<close>\<close>

function tr_loop :: "buf \<Rightarrow> nat \<Rightarrow> nat \<Rightarrow> fault + buf" where
  "tr_loop r i j =
     (if j < i
      then bindE (rd r j) (\<lambda>v. bindE (rd_tab v) (\<lambda>c. bindE (wr r j c) (\<lambda>r. tr_loop r i (j + 1))))
      else Inr r)"
  by pat_completeness auto
termination
  by (relation "measure (\<lambda>(r, i, j). i - j)") auto

declare tr_loop.simps [simp del]

text \<open>\<^verbatim>\<open>while (i < out_size) r[i++] = '=';\<close>\<close>

function pad_loop :: "buf \<Rightarrow> nat \<Rightarrow> nat \<Rightarrow> fault + (buf \<times> nat)" where
  "pad_loop r i out_size =
     (if i < out_size
      then bindE (wr r i (of_char CHR ''='')) (\<lambda>r. pad_loop r (i + 1) out_size)
      else Inr (r, i))"
  by pat_completeness auto
termination
  by (relation "measure (\<lambda>(r, i, out_size). out_size - i)") auto

declare pad_loop.simps [simp del]

text \<open>
  The caller receives a \<^verbatim>\<open>char *\<close>: the string it denotes is the bytes of the buffer
  from index \<open>k\<close> up to the first NUL.
\<close>

function cstr :: "buf \<Rightarrow> nat \<Rightarrow> fault + string" where
  "cstr r k =
     (if k < length r
      then bindE (rd r k) (\<lambda>c.
           if c = 0 then Inr [] else bindE (cstr r (k + 1)) (\<lambda>s. Inr (char_of (unat c) # s)))
      else Inl (Out_OOB k))"
  by pat_completeness auto
termination
  by (relation "measure (\<lambda>(r, k). length r - k)") auto

declare cstr.simps [simp del]

text \<open>\<^verbatim>\<open>size_t\<close> arithmetic wraps at 64 bits.\<close>

definition size_t :: "nat \<Rightarrow> nat" where
  "size_t n = n mod 2 ^ 64"

text \<open>
  \<^verbatim>\<open>base32enc(in, in_size)\<close>, lines 132 to 167. \<open>inp\<close> is the object \<^verbatim>\<open>in\<close> points to.
\<close>

definition base32enc :: "byte list \<Rightarrow> nat \<Rightarrow> fault + string" where
  "base32enc inp in_size =
     (let out_size = size_t (size_t (in_size + 4) div 5 * 8);
          r = replicate (size_t (out_size + 1)) None
      in bindE (enc_loop inp in_size r 0 0) (\<lambda>(r, i).
         bindE (tr_loop r i 0) (\<lambda>r.
         bindE (pad_loop r i out_size) (\<lambda>(r, i).
         bindE (wr r i 0) (\<lambda>r.
         cstr r 0)))))"

section \<open>Base32 as the specification describes it\<close>

text \<open>
  The reference for the encoder follows the wording of the specification (section 4.2) and
  of RFC 4648, not the code: the input is cut into groups of five bytes; the bits of a
  group, most significant bit of each byte first, are cut into symbols of five bits, the
  last one filled up with zero bits; a symbol is the number its bits denote, most
  significant first, and is written as the letter at that position of the alphabet
  \<^verbatim>\<open>A\<close>-\<^verbatim>\<open>Z\<close>, \<^verbatim>\<open>2\<close>-\<^verbatim>\<open>7\<close>; a group that gives fewer than eight symbols is filled up with
  \<^verbatim>\<open>=\<close> to eight characters.
\<close>

definition alphabet :: string where
  "alphabet = ''ABCDEFGHIJKLMNOPQRSTUVWXYZ234567''"

definition bits_msb :: "byte \<Rightarrow> bool list" where
  "bits_msb b = map (bit b) [7, 6, 5, 4, 3, 2, 1, 0]"

function quintets :: "bool list \<Rightarrow> bool list list" where
  "quintets bs = (if bs = [] then [] else take 5 (bs @ replicate 4 False) # quintets (drop 5 bs))"
  by pat_completeness auto
termination
  by (relation "measure length") auto

declare quintets.simps [simp del]

definition sym_val :: "bool list \<Rightarrow> nat" where
  "sym_val q = foldl (\<lambda>n b. 2 * n + of_bool b) 0 q"

definition rfc_group :: "byte list \<Rightarrow> string" where
  "rfc_group g =
     (let s = map (\<lambda>q. alphabet ! sym_val q) (quintets (concat (map bits_msb g)))
      in s @ replicate (8 - length s) CHR ''='')"

function rfc_base32 :: "byte list \<Rightarrow> string" where
  "rfc_base32 bs = (if bs = [] then [] else rfc_group (take 5 bs) @ rfc_base32 (drop 5 bs))"
  by pat_completeness auto
termination
  by (relation "measure length") auto

declare rfc_base32.simps [simp del]

section \<open>Auxiliary notions for the proofs about the encoder\<close>

text \<open>
  \<open>blit r i xs\<close> is the buffer \<open>r\<close> after the cells from \<open>i\<close> on have been overwritten
  with \<open>xs\<close>. \<open>enc_syms\<close> lists the values that the first loop of \<^verbatim>\<open>base32enc\<close> leaves
  in the buffer, read off the assignments of one pass; \<open>tr_char\<close> is what the second loop
  and the conversion to \<^verbatim>\<open>char\<close> make of one such value; \<open>code_str\<close> puts these together
  with the padding of the third loop. \<open>sym5\<close> says that a byte is a 5-bit value.
\<close>

fun blit :: "'a list \<Rightarrow> nat \<Rightarrow> 'a list \<Rightarrow> 'a list" where
  "blit r i [] = r"
| "blit r i (x # xs) = blit (r[i := x]) (Suc i) xs"

fun enc_syms :: "byte list \<Rightarrow> byte list" where
  "enc_syms [] = []"
| "enc_syms [b0] = [c_shr b0 3, c_shl b0 2]"
| "enc_syms [b0, b1] = [c_shr b0 3, c_shl b0 2 OR c_shr b1 6, c_shr b1 1, c_shl b1 4]"
| "enc_syms [b0, b1, b2] =
     [c_shr b0 3, c_shl b0 2 OR c_shr b1 6, c_shr b1 1, c_shl b1 4 OR c_shr b2 4, c_shl b2 1]"
| "enc_syms [b0, b1, b2, b3] =
     [c_shr b0 3, c_shl b0 2 OR c_shr b1 6, c_shr b1 1, c_shl b1 4 OR c_shr b2 4,
      c_shl b2 1 OR c_shr b3 7, c_shr b3 2, c_shl b3 3]"
| "enc_syms (b0 # b1 # b2 # b3 # b4 # rest) =
     [c_shr b0 3, c_shl b0 2 OR c_shr b1 6, c_shr b1 1, c_shl b1 4 OR c_shr b2 4,
      c_shl b2 1 OR c_shr b3 7, c_shr b3 2, c_shl b3 3 OR c_shr b4 5, c_low b4] @ enc_syms rest"

definition sym5 :: "byte \<Rightarrow> bool" where
  "sym5 v \<longleftrightarrow> unat v < 32"

definition tr_char :: "byte \<Rightarrow> char" where
  "tr_char v = char_of (unat (base32 ! unat v))"

definition code_str :: "byte list \<Rightarrow> string" where
  "code_str inp = map tr_char (enc_syms inp) @
          replicate ((length inp + 4) div 5 * 8 - length (enc_syms inp)) CHR ''=''"

section \<open>The QR rasterizer\<close>

text \<open>
  \<^verbatim>\<open>qrencode\<close>, lines 169 to 200. The matrix comes from \<^verbatim>\<open>QRcode_encodeString\<close> of
  libqrencode: a width \<open>w\<close> and \<open>w * w\<close> module bytes, of which bit 0 says whether the
  module is set. The string literals of the function:
\<close>

definition ESC :: char where
  "ESC = CHR 0x1B"

definition s_light :: string where  \<comment> \<open>\<^verbatim>\<open>"\033[47m  "\<close>\<close>
  "s_light = ESC # ''[47m  ''"

definition s_dark :: string where  \<comment> \<open>\<^verbatim>\<open>"\033[40m  "\<close>\<close>
  "s_dark = ESC # ''[40m  ''"

definition s_eol :: string where  \<comment> \<open>\<^verbatim>\<open>"\033[47m  \033[0m\n"\<close>\<close>
  "s_eol = ESC # ''[47m  '' @ ESC # ''[0m'' @ [CHR 0x0A]"

definition fmt_margin :: string where  \<comment> \<open>the format \<^verbatim>\<open>"\033[47m%*s\033[0m\n"\<close> itself\<close>
  "fmt_margin = ESC # ''[47m%*s'' @ ESC # ''[0m'' @ [CHR 0x0A]"

text \<open>
  What \<^verbatim>\<open>sprintf\<close> makes of that format with the arguments \<^verbatim>\<open>2*(width+2)\<close> and
  \<^verbatim>\<open>""\<close>: the empty string padded with blanks to the given width.
\<close>

definition margin :: "nat \<Rightarrow> string" where
  "margin w = ESC # ''[47m'' @ replicate (2 * (w + 2)) CHR '' '' @ ESC # ''[0m'' @ [CHR 0x0A]"

text \<open>
  \<^verbatim>\<open>sprintf(&qrpic[idx], s)\<close> stores the characters of \<open>s\<close> and a terminating NUL from
  index \<open>idx\<close> on, and returns the number of characters without the NUL.
\<close>

fun put :: "buf \<Rightarrow> nat \<Rightarrow> byte list \<Rightarrow> fault + buf" where
  "put r i [] = Inr r"
| "put r i (c # cs) = bindE (wr r i c) (\<lambda>r. put r (i + 1) cs)"

definition sprintf_at :: "buf \<Rightarrow> nat \<Rightarrow> string \<Rightarrow> fault + (buf \<times> nat)" where
  "sprintf_at r idx s = bindE (put r idx (map of_char s @ [0])) (\<lambda>r. Inr (r, length s))"

definition rd_data :: "byte list \<Rightarrow> nat \<Rightarrow> fault + byte" where
  "rd_data d k = (if k < length d then Inr (d ! k) else Inl (Data_OOB k))"

text \<open>The inner loop over \<open>x\<close> (lines 187 to 193) and the outer loop over \<open>y\<close> (185 to 195).\<close>

function qr_cols :: "nat \<Rightarrow> byte list \<Rightarrow> nat \<Rightarrow> buf \<Rightarrow> nat \<Rightarrow> nat \<Rightarrow> fault + (buf \<times> nat)" where
  "qr_cols w d y r idx x =
     (if x < w
      then bindE (rd_data d (y * w + x)) (\<lambda>m.
           bindE (sprintf_at r idx (if m AND 0x01 \<noteq> 0 then s_dark else s_light)) (\<lambda>(r, n).
           qr_cols w d y r (idx + n) (x + 1)))
      else Inr (r, idx))"
  by pat_completeness auto
termination
  by (relation "measure (\<lambda>(w, d, y, r, idx, x). w - x)") auto

declare qr_cols.simps [simp del]

function qr_rows :: "nat \<Rightarrow> byte list \<Rightarrow> buf \<Rightarrow> nat \<Rightarrow> nat \<Rightarrow> fault + (buf \<times> nat)" where
  "qr_rows w d r idx y =
     (if y < w
      then bindE (sprintf_at r idx s_light) (\<lambda>(r, n).
           bindE (qr_cols w d y r (idx + n) 0) (\<lambda>(r, idx).
           bindE (sprintf_at r idx s_eol) (\<lambda>(r, n).
           qr_rows w d r (idx + n) (y + 1))))
      else Inr (r, idx))"
  by pat_completeness auto
termination
  by (relation "measure (\<lambda>(w, d, r, idx, y). w - y)") auto

declare qr_rows.simps [simp del]

text \<open>
  The argument of \<^verbatim>\<open>malloc\<close> (lines 176 to 182). \<^verbatim>\<open>strlen\<close> makes it a \<^verbatim>\<open>size_t\<close>
  computation; the \<^verbatim>\<open>int\<close> part \<^verbatim>\<open>(width+2) * 2 - 2\<close> is non-negative.
\<close>

definition qr_alloc :: "nat \<Rightarrow> nat" where
  "qr_alloc w =
     size_t (2 * ((w + 2) * 2 - 2 + length fmt_margin)
             + w * (length s_light * (w + 1) + length s_eol)
             + 1)"

text \<open>The body of \<^verbatim>\<open>qrencode\<close> once the matrix is there; the result is the string \<^verbatim>\<open>qrpic\<close>.\<close>

definition qr_render :: "nat \<Rightarrow> byte list \<Rightarrow> fault + string" where
  "qr_render w d =
     (let r = replicate (qr_alloc w) None
      in bindE (sprintf_at r 0 (margin w)) (\<lambda>(r, idx).
         bindE (qr_rows w d r idx 0) (\<lambda>(r, idx).
         bindE (sprintf_at r idx (margin w)) (\<lambda>(r, n).
         cstr r 0))))"

text \<open>The text the rasterizer is meant to produce, row by row.\<close>

definition qr_cell :: "byte \<Rightarrow> string" where
  "qr_cell m = (if m AND 0x01 \<noteq> 0 then s_dark else s_light)"

definition qr_row :: "nat \<Rightarrow> byte list \<Rightarrow> nat \<Rightarrow> string" where
  "qr_row w d y = s_light @ concat (map (\<lambda>x. qr_cell (d ! (y * w + x))) [0..<w]) @ s_eol"

definition qr_text :: "nat \<Rightarrow> byte list \<Rightarrow> string" where
  "qr_text w d = margin w @ concat (map (qr_row w d) [0..<w]) @ margin w"

text \<open>
  For the proofs: the buffer \<open>r\<close> holds the bytes \<open>t\<close> in its first cells.
\<close>

definition holds :: "buf \<Rightarrow> byte list \<Rightarrow> bool" where
  "holds r t \<longleftrightarrow> length t \<le> length r \<and> take (length t) r = map Some t"

section \<open>The command line\<close>

text \<open>
  What a run of the program does to the outside is recorded as a list of events, in order:
  the texts it writes to the two streams, the diagnostic of the macro \<^verbatim>\<open>chkrc\<close> (with the
  line of the macro call and the code), and the calls of libtpm2-totp with their arguments.
  A run ends with \<^verbatim>\<open>exit(n)\<close> or with the \<^verbatim>\<open>return 0\<close> of \<^verbatim>\<open>main\<close>, both \<open>Exit\<close> here, or
  in undefined behaviour of one of the two functions above.
\<close>

datatype call =
    GenerateKey nat nat "string option"
  | StoreKey_nv "byte list" int
  | LoadKey_nv int
  | Calculate "byte list"
  | Reseal "byte list" "string option" nat nat
  | GetSecret "byte list" "string option"
  | DeleteKey_nv int

datatype event =
    Stdout string
  | Stderr string
  | Stderr_rc nat int
  | Call call

datatype stop = Exit int | UB fault

subsection \<open>Options\<close>

datatype cmd = CMD_NONE | CMD_GENERATE | CMD_CALCULATE | CMD_RESEAL | CMD_RECOVER | CMD_CLEAN

record opt =
  opt_cmd :: cmd
  opt_nvindex :: int
  opt_password :: "string option"
  opt_time :: int
  opt_verbose :: int

definition help_text :: string where
  "help_text =
     ''Usage: [options] {generate|calculate|reseal|recover|clean}\<newline>'' @
     ''Options:\<newline>'' @
     ''    -h, --help      print help\<newline>'' @
     ''    -N, --nvindex   TPM NV index to store data (default: 0x018094AF)\<newline>'' @
     ''    -P, --password  Password for recovery/resealing (default: None)\<newline>'' @
     ''    -t, --time      Show the time used for calculation\<newline>'' @
     ''    -v, --verbose   print verbose messages\<newline>'' @
     ''\<newline>''"

datatype has_arg = no_argument | required_argument

definition optstr :: string where
  "optstr = ''N:P:tv''"

definition long_options :: "(string \<times> has_arg \<times> char) list" where
  "long_options =
     [(''nvindex'', required_argument, CHR ''N''),
      (''password'', required_argument, CHR ''P''),
      (''time'', no_argument, CHR ''t''),
      (''verbose'', no_argument, CHR ''v'')]"

subsection \<open>\<^verbatim>\<open>getopt_long\<close>\<close>

text \<open>
  \<^verbatim>\<open>getopt_long\<close> belongs to the C library, not to the program. It is modelled here as the
  GNU C library documents it, for the option string and the table above: an element
  \<^verbatim>\<open>--name\<close> or \<^verbatim>\<open>--name=value\<close> is looked up in the table (an exact name, or an
  abbreviation that fits one entry only); an element \<^verbatim>\<open>-xyz\<close> is a cluster of option
  characters looked up in the option string, where a character followed by a colon takes
  the rest of the element, or else the next element, as its argument; \<^verbatim>\<open>--\<close> ends the
  options; every other element is an operand, and the operands are moved behind the options
  (\<^verbatim>\<open>POSIXLY_CORRECT\<close> is taken to be unset). A character or name that is not found, a
  missing argument and an argument given to a name that takes none make the call return
  \<^verbatim>\<open>'?'\<close>. What \<^verbatim>\<open>getopt_long\<close> itself writes to the error stream is not recorded.

  One value of \<open>getopt_ret\<close> stands for one call that did not return \<open>-1\<close>: the character
  returned, \<^verbatim>\<open>optarg\<close>, and the index stored through the last parameter when a long name
  was recognised. \<open>getopt_scan\<close> gives the calls of a whole run and the operands left from
  \<^verbatim>\<open>argv[optind]\<close> on; its first argument is the unread rest of a cluster.
\<close>

datatype getopt_ret = Opt char "string option" "nat option"

fun short_spec :: "string \<Rightarrow> char \<Rightarrow> has_arg option" where
  "short_spec [] c = None"
| "short_spec (x # xs) c =
     (if x = c \<and> c \<noteq> CHR '':''
      then Some (case xs of y # _ \<Rightarrow> (if y = CHR '':'' then required_argument else no_argument)
                 | [] \<Rightarrow> no_argument)
      else short_spec xs c)"

definition long_lookup :: "string \<Rightarrow> (nat \<times> has_arg \<times> char) option" where
  "long_lookup name =
     (let idx = [0..<length long_options];
          exact = filter (\<lambda>i. fst (long_options ! i) = name) idx;
          abbrev = filter (\<lambda>i. prefix name (fst (long_options ! i))) idx
      in case exact of
           i # _ \<Rightarrow> Some (i, snd (long_options ! i))
         | [] \<Rightarrow> (case abbrev of [i] \<Rightarrow> Some (i, snd (long_options ! i)) | _ \<Rightarrow> None))"

definition split_eq :: "string \<Rightarrow> string \<times> string option" where
  "split_eq s =
     (let name = takeWhile (\<lambda>c. c \<noteq> CHR ''='') s
      in (name, if length name < length s then Some (drop (length name + 1) s) else None))"

definition cons_ret :: "getopt_ret \<Rightarrow> getopt_ret list \<times> string list \<Rightarrow> getopt_ret list \<times> string list" where
  "cons_ret g p = (g # fst p, snd p)"

definition bad_opt :: getopt_ret where
  "bad_opt = Opt CHR ''?'' None None"

function getopt_scan :: "string \<Rightarrow> string list \<Rightarrow> getopt_ret list \<times> string list" where
  "getopt_scan (c # cs) rest =
     (case short_spec optstr c of
        None \<Rightarrow> cons_ret bad_opt (getopt_scan cs rest)
      | Some no_argument \<Rightarrow> cons_ret (Opt c None None) (getopt_scan cs rest)
      | Some required_argument \<Rightarrow>
          (if cs \<noteq> [] then cons_ret (Opt c (Some cs) None) (getopt_scan [] rest)
           else (case rest of
                   [] \<Rightarrow> ([bad_opt], [])
                 | a # rest' \<Rightarrow> cons_ret (Opt c (Some a) None) (getopt_scan [] rest'))))"
| "getopt_scan [] [] = ([], [])"
| "getopt_scan [] (a # rest) =
     (if a = ''--'' then ([], rest)
      else if prefix ''--'' a then
        (case long_lookup (fst (split_eq (drop 2 a))) of
           None \<Rightarrow> cons_ret bad_opt (getopt_scan [] rest)
         | Some (i, no_argument, v) \<Rightarrow>
             (case snd (split_eq (drop 2 a)) of
                None \<Rightarrow> cons_ret (Opt v None (Some i)) (getopt_scan [] rest)
              | Some x \<Rightarrow> cons_ret bad_opt (getopt_scan [] rest))
         | Some (i, required_argument, v) \<Rightarrow>
             (case snd (split_eq (drop 2 a)) of
                Some x \<Rightarrow> cons_ret (Opt v (Some x) (Some i)) (getopt_scan [] rest)
              | None \<Rightarrow>
                  (case rest of
                     [] \<Rightarrow> ([bad_opt], [])
                   | x # rest' \<Rightarrow> cons_ret (Opt v (Some x) (Some i)) (getopt_scan [] rest'))))
      else if prefix ''-'' a \<and> a \<noteq> ''-'' then getopt_scan (tl a) rest
      else (case getopt_scan [] rest of (rs, operands) \<Rightarrow> (rs, a # operands)))"
  by pat_completeness auto
termination
  by (relation "measure (\<lambda>(cl, rest). length cl + sum_list (map (\<lambda>a. Suc (length a)) rest))")
     (auto simp: prefix_def)

declare getopt_scan.simps [simp del]

subsection \<open>\<^verbatim>\<open>parse_opts\<close>\<close>

text \<open>Decimal digits of a number, as \<^verbatim>\<open>%i\<close> and \<^verbatim>\<open>%ld\<close> print a non-negative value.\<close>

function dec :: "nat \<Rightarrow> string" where
  "dec n = (if n < 10 then [''0123456789'' ! n] else dec (n div 10) @ [''0123456789'' ! (n mod 10)])"
  by pat_completeness auto
termination
  by (relation "measure id") auto

declare dec.simps [simp del]

text \<open>
  The loop over the calls of \<^verbatim>\<open>getopt_long\<close> with its \<^verbatim>\<open>switch\<close> (lines 72 to 99).
  \<open>sc\<close> stands for the two \<^verbatim>\<open>sscanf\<close> calls of lines 79 and 80 (C library): the number
  they leave in \<^verbatim>\<open>opt.nvindex\<close>, or \<open>None\<close> when neither converts.
\<close>

fun opts_loop ::
  "(string option \<Rightarrow> int option) \<Rightarrow> getopt_ret list \<Rightarrow> nat \<Rightarrow> opt \<Rightarrow> event list \<times> (stop + opt)" where
  "opts_loop sc [] opt_idx opt = ([], Inr opt)"
| "opts_loop sc (Opt c optarg longindex # rs) opt_idx opt =
     (let oi = (case longindex of None \<Rightarrow> opt_idx | Some k \<Rightarrow> k) in
      if c = CHR ''h'' then ([Stdout help_text], Inl (Exit 0))
      else if c = CHR ''e'' then
        (case sc optarg of
           None \<Rightarrow> ([Stderr ''Error parsing nvindex.\<newline>''], Inl (Exit 1))
         | Some v \<Rightarrow> opts_loop sc rs oi (opt\<lparr>opt_nvindex := v\<rparr>))
      else if c = CHR ''P'' then opts_loop sc rs oi (opt\<lparr>opt_password := optarg\<rparr>)
      else if c = CHR ''t'' then opts_loop sc rs oi (opt\<lparr>opt_time := 1\<rparr>)
      else if c = CHR ''v'' then opts_loop sc rs oi (opt\<lparr>opt_verbose := 1\<rparr>)
      else ([Stderr (''Unknown option at index '' @ dec oi @ ''.\<newline>\<newline>''), Stderr help_text],
            Inl (Exit 1)))"

text \<open>The chain of \<^verbatim>\<open>strcmp\<close> tests of lines 107 to 121.\<close>

definition command_of :: "string \<Rightarrow> cmd option" where
  "command_of a =
     (if a = ''generate'' then Some CMD_GENERATE
      else if a = ''calculate'' then Some CMD_CALCULATE
      else if a = ''reseal'' then Some CMD_RESEAL
      else if a = ''recover'' then Some CMD_RECOVER
      else if a = ''clean'' then Some CMD_CLEAN
      else None)"

definition parse_opts ::
  "(string option \<Rightarrow> int option) \<Rightarrow> string list \<Rightarrow> event list \<times> (stop + opt)" where
  "parse_opts sc argv =
     (let opt0 = \<lparr>opt_cmd = CMD_NONE, opt_nvindex = 0, opt_password = None,
                  opt_time = 0, opt_verbose = 0\<rparr>
      in case getopt_scan [] (drop 1 argv) of (rets, operands) \<Rightarrow>
         (case opts_loop sc rets 0 opt0 of
            (evs, Inl st) \<Rightarrow> (evs, Inl st)
          | (evs, Inr opt) \<Rightarrow>
              (case operands of
                 [] \<Rightarrow>
                   (evs @ [Stderr ''Missing command: generate, calculate, reseal, recover, clean.\<newline>\<newline>'',
                           Stderr help_text], Inl (Exit 1))
               | a # extra \<Rightarrow>
                   (case command_of a of
                      None \<Rightarrow>
                        (evs @ [Stderr ''Unknown command: generate, calculate, reseal, recover, clean.\<newline>\<newline>'',
                                Stderr help_text], Inl (Exit 1))
                    | Some c \<Rightarrow>
                        if extra \<noteq> []
                        then (evs @ [Stderr ''Unknown argument provided.\<newline>\<newline>'', Stderr help_text],
                              Inl (Exit 1))
                        else (evs, Inr (opt\<lparr>opt_cmd := c\<rparr>))))))"

section \<open>The commands\<close>

text \<open>
  The functions \<^verbatim>\<open>main\<close> calls outside \<^verbatim>\<open>src/tpm2-totp.c\<close> are parameters of the model:
  the seven functions of libtpm2-totp, which act on the state \<open>'s\<close> of the TPM and return a
  code (\<^verbatim>\<open>TSS2_RC_SUCCESS\<close> is 0) and their results; \<^verbatim>\<open>QRcode_encodeString\<close>, which returns
  the width and the modules of a matrix or fails; the \<^verbatim>\<open>sscanf\<close> conversion of
  \<open>opts_loop\<close>; and \<open>strftime_local\<close>, the text that \<^verbatim>\<open>localtime\<close> and the format
  \<^verbatim>\<open>"%Y-%m-%d %H:%M:%S: "\<close> make of a time. A secret or blob is the list of its bytes, the
  accompanying size its length.
\<close>

record 's world =
  tpm2totp_generateKey :: "nat \<Rightarrow> nat \<Rightarrow> string option \<Rightarrow> 's \<Rightarrow> (int \<times> byte list \<times> byte list) \<times> 's"
  tpm2totp_storeKey_nv :: "byte list \<Rightarrow> int \<Rightarrow> 's \<Rightarrow> int \<times> 's"
  tpm2totp_loadKey_nv :: "int \<Rightarrow> 's \<Rightarrow> (int \<times> byte list) \<times> 's"
  tpm2totp_calculate :: "byte list \<Rightarrow> 's \<Rightarrow> (int \<times> int \<times> 64 word) \<times> 's"
  tpm2totp_reseal :: "byte list \<Rightarrow> string option \<Rightarrow> nat \<Rightarrow> nat \<Rightarrow> 's \<Rightarrow> (int \<times> byte list) \<times> 's"
  tpm2totp_getSecret :: "byte list \<Rightarrow> string option \<Rightarrow> 's \<Rightarrow> (int \<times> byte list) \<times> 's"
  tpm2totp_deleteKey_nv :: "int \<Rightarrow> 's \<Rightarrow> int \<times> 's"
  QRcode_encodeString :: "string \<Rightarrow> (nat \<times> byte list) option"
  sscanf_nvindex :: "string option \<Rightarrow> int option"
  strftime_local :: "int \<Rightarrow> string"

text \<open>
  A piece of the program takes the events so far and the state of the TPM, and either stops
  the process or goes on with a value.
\<close>

type_synonym ('s, 'a) proc = "event list \<times> 's \<Rightarrow> (stop + 'a) \<times> event list \<times> 's"

definition ret :: "'a \<Rightarrow> ('s, 'a) proc" where
  "ret x = (\<lambda>st. (Inr x, st))"

definition bindP :: "('s, 'a) proc \<Rightarrow> ('a \<Rightarrow> ('s, 'b) proc) \<Rightarrow> ('s, 'b) proc" where
  "bindP m f = (\<lambda>st. case m st of (Inl e, st') \<Rightarrow> (Inl e, st') | (Inr x, st') \<Rightarrow> f x st')"

definition emit :: "event \<Rightarrow> ('s, unit) proc" where
  "emit e = (\<lambda>(evs, s). (Inr (), evs @ [e], s))"

definition exit_with :: "int \<Rightarrow> ('s, 'a) proc" where
  "exit_with n = (\<lambda>st. (Inl (Exit n), st))"

definition extern :: "call \<Rightarrow> ('s \<Rightarrow> 'a \<times> 's) \<Rightarrow> ('s, 'a) proc" where
  "extern c f = (\<lambda>(evs, s). case f s of (x, s') \<Rightarrow> (Inr x, evs @ [Call c], s'))"

definition lift_fault :: "fault + 'a \<Rightarrow> ('s, 'a) proc" where
  "lift_fault m = (case m of Inl f \<Rightarrow> (\<lambda>st. (Inl (UB f), st)) | Inr x \<Rightarrow> ret x)"

text \<open>The macro \<^verbatim>\<open>chkrc(rc, exit(1))\<close>, used on line \<open>line\<close>.\<close>

definition chkrc :: "nat \<Rightarrow> int \<Rightarrow> ('s, unit) proc" where
  "chkrc line rc = (if rc \<noteq> 0 then bindP (emit (Stderr_rc line rc)) (\<lambda>_. exit_with 1) else ret ())"

text \<open>
  \<^verbatim>\<open>qrencode(url)\<close> as a whole (lines 169 to 200), and the part that the commands
  \<^verbatim>\<open>generate\<close> and \<^verbatim>\<open>recover\<close> share (lines 238 to 248 and 290 to 300).
\<close>

definition URL_PREFIX :: string where
  "URL_PREFIX = ''otpauth://totp/TPM2-TOTP?secret=''"

definition qrencode :: "'s world \<Rightarrow> string \<Rightarrow> ('s, string) proc" where
  "qrencode w url =
     (case QRcode_encodeString w url of
        None \<Rightarrow> bindP (emit (Stderr ''QRcode failed.'')) (\<lambda>_. exit_with 1)
      | Some (width, d) \<Rightarrow> lift_fault (qr_render width d))"

definition print_secret :: "'s world \<Rightarrow> byte list \<Rightarrow> ('s, unit) proc" where
  "print_secret w secret =
     bindP (lift_fault (base32enc secret (length secret))) (\<lambda>base32key.
     bindP (qrencode w (URL_PREFIX @ base32key)) (\<lambda>qrpic.
     bindP (emit (Stdout (qrpic @ ''\<newline>''))) (\<lambda>_.
     emit (Stdout (URL_PREFIX @ base32key @ ''\<newline>'')))))"

text \<open>
  \<^verbatim>\<open>strftime(timestr, max, ...)\<close> returns the length of the text when the text and its
  NUL fit in \<open>maxsize\<close> bytes, and 0 otherwise. \<^verbatim>\<open>printf("%06ld", totp)\<close> reads the
  \<^verbatim>\<open>uint64_t\<close> as a \<^verbatim>\<open>long\<close> and pads with zeros to a width of at least 6.
\<close>

definition strftime :: "nat \<Rightarrow> string \<Rightarrow> nat" where
  "strftime maxsize s = (if length s + 1 \<le> maxsize then length s else 0)"

definition zero_pad :: "nat \<Rightarrow> string \<Rightarrow> string" where
  "zero_pad width s = replicate (width - length s) CHR ''0'' @ s"

definition fmt_06ld :: "64 word \<Rightarrow> string" where
  "fmt_06ld v =
     (if sint v < 0 then CHR ''-'' # zero_pad 5 (dec (nat (- sint v)))
      else zero_pad 6 (dec (nat (sint v))))"

text \<open>The five branches of the \<^verbatim>\<open>switch\<close> in \<^verbatim>\<open>main\<close> (lines 227 to 309).\<close>

definition cmd_generate :: "'s world \<Rightarrow> opt \<Rightarrow> ('s, unit) proc" where
  "cmd_generate w opt =
     bindP (extern (GenerateKey 0 0 (opt_password opt))
              (tpm2totp_generateKey w 0 0 (opt_password opt))) (\<lambda>(rc, secret, keyBlob).
     bindP (chkrc 232 rc) (\<lambda>_.
     bindP (extern (StoreKey_nv keyBlob (opt_nvindex opt))
              (tpm2totp_storeKey_nv w keyBlob (opt_nvindex opt))) (\<lambda>rc.
     bindP (chkrc 236 rc) (\<lambda>_.
     print_secret w secret))))"

definition cmd_calculate :: "'s world \<Rightarrow> opt \<Rightarrow> ('s, unit) proc" where
  "cmd_calculate w opt =
     bindP (extern (LoadKey_nv (opt_nvindex opt))
              (tpm2totp_loadKey_nv w (opt_nvindex opt))) (\<lambda>(rc, keyBlob).
     bindP (chkrc 252 rc) (\<lambda>_.
     bindP (extern (Calculate keyBlob) (tpm2totp_calculate w keyBlob)) (\<lambda>(rc, now, totp).
     bindP (chkrc 256 rc) (\<lambda>_.
     bindP (if opt_time opt \<noteq> 0
            then bindP (chkrc 260 (if strftime 99 (strftime_local w now) = 0 then 1 else 0))
                   (\<lambda>_. ret (strftime_local w now))
            else ret '''') (\<lambda>timestr.
     emit (Stdout (timestr @ fmt_06ld totp)))))))"

definition cmd_reseal :: "'s world \<Rightarrow> opt \<Rightarrow> ('s, unit) proc" where
  "cmd_reseal w opt =
     bindP (extern (LoadKey_nv (opt_nvindex opt))
              (tpm2totp_loadKey_nv w (opt_nvindex opt))) (\<lambda>(rc, keyBlob).
     bindP (chkrc 266 rc) (\<lambda>_.
     bindP (extern (Reseal keyBlob (opt_password opt) 0 0)
              (tpm2totp_reseal w keyBlob (opt_password opt) 0 0)) (\<lambda>(rc, newBlob).
     bindP (chkrc 271 rc) (\<lambda>_.
     bindP (extern (DeleteKey_nv (opt_nvindex opt))
              (tpm2totp_deleteKey_nv w (opt_nvindex opt))) (\<lambda>rc.
     bindP (chkrc 275 rc) (\<lambda>_.
     bindP (extern (StoreKey_nv newBlob (opt_nvindex opt))
              (tpm2totp_storeKey_nv w newBlob (opt_nvindex opt))) (\<lambda>rc.
     chkrc 279 rc)))))))"

definition cmd_recover :: "'s world \<Rightarrow> opt \<Rightarrow> ('s, unit) proc" where
  "cmd_recover w opt =
     bindP (extern (LoadKey_nv (opt_nvindex opt))
              (tpm2totp_loadKey_nv w (opt_nvindex opt))) (\<lambda>(rc, keyBlob).
     bindP (chkrc 283 rc) (\<lambda>_.
     bindP (extern (GetSecret keyBlob (opt_password opt))
              (tpm2totp_getSecret w keyBlob (opt_password opt))) (\<lambda>(rc, secret).
     bindP (chkrc 288 rc) (\<lambda>_.
     print_secret w secret))))"

definition cmd_clean :: "'s world \<Rightarrow> opt \<Rightarrow> ('s, unit) proc" where
  "cmd_clean w opt =
     bindP (extern (DeleteKey_nv (opt_nvindex opt))
              (tpm2totp_deleteKey_nv w (opt_nvindex opt))) (\<lambda>rc.
     chkrc 305 rc)"

definition main_switch :: "'s world \<Rightarrow> opt \<Rightarrow> ('s, unit) proc" where
  "main_switch w opt =
     (case opt_cmd opt of
        CMD_GENERATE \<Rightarrow> cmd_generate w opt
      | CMD_CALCULATE \<Rightarrow> cmd_calculate w opt
      | CMD_RESEAL \<Rightarrow> cmd_reseal w opt
      | CMD_RECOVER \<Rightarrow> cmd_recover w opt
      | CMD_CLEAN \<Rightarrow> cmd_clean w opt
      | CMD_NONE \<Rightarrow> exit_with 1)"

text \<open>
  \<^verbatim>\<open>main\<close>: the exit status, the events and the state of the TPM at the end of the run that
  starts with the arguments \<open>argv\<close> and the TPM in state \<open>s\<close>.
\<close>

definition main :: "'s world \<Rightarrow> string list \<Rightarrow> 's \<Rightarrow> stop \<times> event list \<times> 's" where
  "main w argv s =
     (case parse_opts (sscanf_nvindex w) argv of
        (evs, Inl st) \<Rightarrow> (st, evs, s)
      | (evs, Inr opt) \<Rightarrow>
          (case main_switch w opt (evs, s) of
             (Inl st, evs', s') \<Rightarrow> (st, evs', s')
           | (Inr u, evs', s') \<Rightarrow> (Exit 0, evs', s')))"

definition run_status :: "stop \<times> event list \<times> 's \<Rightarrow> stop" where
  "run_status r = fst r"

definition run_events :: "stop \<times> event list \<times> 's \<Rightarrow> event list" where
  "run_events r = fst (snd r)"

text \<open>What a run wrote to the standard output, and the library calls it made.\<close>

fun stdout_of :: "event list \<Rightarrow> string" where
  "stdout_of [] = []"
| "stdout_of (Stdout s # evs) = s @ stdout_of evs"
| "stdout_of (_ # evs) = stdout_of evs"

fun calls_of :: "event list \<Rightarrow> call list" where
  "calls_of [] = []"
| "calls_of (Call c # evs) = c # calls_of evs"
| "calls_of (_ # evs) = calls_of evs"

text \<open>
  A test double for the library: every call succeeds with fixed results, except that
  deleting returns the code \<open>rc_delete\<close>; the TPM has no state; the code computed is
  \<open>code\<close>.
\<close>

definition stub_world :: "int \<Rightarrow> 64 word \<Rightarrow> unit world" where
  "stub_world rc_delete code =
     \<lparr>tpm2totp_generateKey = (\<lambda>a b p s. ((0, [0, 0, 0, 0, 0], [1, 2, 3]), s)),
      tpm2totp_storeKey_nv = (\<lambda>b i s. (0, s)),
      tpm2totp_loadKey_nv = (\<lambda>i s. ((0, [1, 2, 3]), s)),
      tpm2totp_calculate = (\<lambda>b s. ((0, 1540000000, code), s)),
      tpm2totp_reseal = (\<lambda>b p x y s. ((0, [4, 5, 6]), s)),
      tpm2totp_getSecret = (\<lambda>b p s. ((0, [0, 0, 0, 0, 0]), s)),
      tpm2totp_deleteKey_nv = (\<lambda>i s. (rc_delete, s)),
      QRcode_encodeString = (\<lambda>u. Some (1, [1])),
      sscanf_nvindex = (\<lambda>a. None),
      strftime_local = (\<lambda>t. ''2018-10-20 01:46:40: '')\<rparr>"

section \<open>The loops of the encoder\<close>

lemma bindE_Inr [simp]: "bindE (Inr x) f = f x"
  by (simp add: bindE_def)

lemma bindE_Inl [simp]: "bindE (Inl e) f = Inl e"
  by (simp add: bindE_def)

lemma length_blit [simp]: "length (blit r i xs) = length r"
  by (induction xs arbitrary: r i) auto

lemma blit_append: "blit r i (xs @ ys) = blit (blit r i xs) (i + length xs) ys"
  by (induction xs arbitrary: r i) auto

lemma drop_ConsD:
  assumes "drop j inp = x # xs"
  shows "j < length inp" and "inp ! j = x" and "drop (Suc j) inp = xs" and "length inp = Suc (j + length xs)"
proof -
  show "j < length inp" using assms by (cases "j < length inp") auto
  show "inp ! j = x" using assms by (rule nth_via_drop)
  show "drop (Suc j) inp = xs" using assms by (metis drop_Suc list.sel(3) tl_drop)
  have "length (drop j inp) = Suc (length xs)" using assms by simp
  then show "length inp = Suc (j + length xs)" by simp
qed

lemma enc_loop_syms:
  "drop j inp = xs \<Longrightarrow> xs \<noteq> [] \<Longrightarrow> i + length (enc_syms xs) \<le> length r \<Longrightarrow>
   enc_loop inp (length inp) r i j =
     Inr (blit r i (map Some (enc_syms xs)), i + length (enc_syms xs))"
proof (induction xs arbitrary: r i j rule: enc_syms.induct)
  case 1
  then show ?case by simp
next
  case (2 b0)
  note d0 = drop_ConsD [OF "2.prems"(1)]
  show ?case using "2.prems"(3) d0
    by (subst enc_loop.simps) (simp add: rd_in_def wr_def)
next
  case (3 b0 b1)
  note d0 = drop_ConsD [OF "3.prems"(1)]
  note d1 = drop_ConsD [OF d0(3)]
  show ?case using "3.prems"(3) d0 d1
    by (subst enc_loop.simps) (simp add: rd_in_def wr_def or_at_def rd_def eval_nat_numeral)
next
  case (4 b0 b1 b2)
  note d0 = drop_ConsD [OF "4.prems"(1)]
  note d1 = drop_ConsD [OF d0(3)]
  note d2 = drop_ConsD [OF d1(3)]
  show ?case using "4.prems"(3) d0 d1 d2
    by (subst enc_loop.simps) (simp add: rd_in_def wr_def or_at_def rd_def eval_nat_numeral)
next
  case (5 b0 b1 b2 b3)
  note d0 = drop_ConsD [OF "5.prems"(1)]
  note d1 = drop_ConsD [OF d0(3)]
  note d2 = drop_ConsD [OF d1(3)]
  note d3 = drop_ConsD [OF d2(3)]
  show ?case using "5.prems"(3) d0 d1 d2 d3
    by (subst enc_loop.simps) (simp add: rd_in_def wr_def or_at_def rd_def eval_nat_numeral)
next
  case (6 b0 b1 b2 b3 b4 rest)
  note d0 = drop_ConsD [OF "6.prems"(1)]
  note d1 = drop_ConsD [OF d0(3)]
  note d2 = drop_ConsD [OF d1(3)]
  note d3 = drop_ConsD [OF d2(3)]
  note d4 = drop_ConsD [OF d3(3)]
  have len: "length inp = j + 5 + length rest" using d4(4) by simp
  have step: "enc_loop inp (length inp) r i j =
      (let r' = blit r i (map Some [c_shr b0 3, c_shl b0 2 OR c_shr b1 6, c_shr b1 1, c_shl b1 4 OR c_shr b2 4,
      c_shl b2 1 OR c_shr b3 7, c_shr b3 2, c_shl b3 3 OR c_shr b4 5, c_low b4])
       in if rest = [] then Inr (r', i + 8) else enc_loop inp (length inp) r' (i + 8) (j + 5))"
    using "6.prems"(3) d0 d1 d2 d3 d4
    by (subst enc_loop.simps) (simp add: rd_in_def wr_def or_at_def rd_def eval_nat_numeral)
  show ?case
  proof (cases "rest = []")
    case True
    then show ?thesis using step by (simp add: Let_def)
  next
    case False
    have dr: "drop (j + 5) inp = rest" using d4(3) by (simp add: eval_nat_numeral)
    show ?thesis using step False "6.prems"(3) "6.IH" [OF dr False, of "i + 8"]
      by (simp add: Let_def blit_append eval_nat_numeral)
  qed
qed

lemma blit_at_end: "length pre + length xs \<le> length (pre @ rest) \<Longrightarrow>
   blit (pre @ rest) (length pre) xs = pre @ xs @ drop (length xs) rest"
proof (induction xs arbitrary: pre rest)
  case Nil
  then show ?case by simp
next
  case (Cons x xs)
  then obtain y rest' where rest: "rest = y # rest'" by (cases rest) auto
  have "blit ((pre @ [x]) @ rest') (length (pre @ [x])) xs = (pre @ [x]) @ xs @ drop (length xs) rest'"
    using Cons.prems rest by (intro Cons.IH) simp
  then show ?case using rest by (simp add: list_update_append)
qed

lemma tr_loop_map:
  "\<forall>v \<in> set xs. unat v < length base32 \<Longrightarrow>
   tr_loop (pre @ map Some xs @ rest) (length pre + length xs) (length pre) =
     Inr (pre @ map (\<lambda>v. Some (base32 ! unat v)) xs @ rest)"
proof (induction xs arbitrary: pre)
  case Nil
  then show ?case by (subst tr_loop.simps) simp
next
  case (Cons x xs)
  have "tr_loop ((pre @ [Some (base32 ! unat x)]) @ map Some xs @ rest)
          (length (pre @ [Some (base32 ! unat x)]) + length xs) (length (pre @ [Some (base32 ! unat x)]))
        = Inr ((pre @ [Some (base32 ! unat x)]) @ map (\<lambda>v. Some (base32 ! unat v)) xs @ rest)"
    using Cons.prems by (intro Cons.IH) simp
  then show ?case using Cons.prems
    by (subst tr_loop.simps) (simp add: rd_def rd_tab_def wr_def nth_append list_update_append)
qed

lemma pad_loop_fill:
  "out_size \<le> length pre + length rest \<Longrightarrow>
   pad_loop (pre @ rest) (length pre) out_size =
     Inr (pre @ replicate (out_size - length pre) (Some (of_char CHR ''='')) @ drop (out_size - length pre) rest,
          max (length pre) out_size)"
proof (induction "out_size - length pre" arbitrary: pre rest)
  case 0
  then show ?case by (subst pad_loop.simps) simp
next
  case (Suc n)
  then obtain y rest' where rest: "rest = y # rest'" by (cases rest) auto
  let ?p = "pre @ [Some (of_char CHR ''='')]"
  have "pad_loop (?p @ rest') (length ?p) out_size =
     Inr (?p @ replicate (out_size - length ?p) (Some (of_char CHR ''='')) @ drop (out_size - length ?p) rest',
          max (length ?p) out_size)"
    using Suc.prems Suc.hyps(2) rest by (intro Suc.hyps(1)) simp_all
  moreover have "out_size - length pre = Suc (out_size - length ?p)" using Suc.hyps(2) by simp
  moreover have "length pre < out_size" using Suc.hyps(2) by simp
  ultimately show ?case using rest
    by (subst pad_loop.simps) (simp add: wr_def list_update_append max_def)
qed

lemma cstr_read:
  "\<forall>c \<in> set cs. c \<noteq> 0 \<Longrightarrow>
   cstr (pre @ map Some cs @ Some 0 # rest) (length pre) = Inr (map (\<lambda>c. char_of (unat c)) cs)"
proof (induction cs arbitrary: pre)
  case Nil
  then show ?case by (subst cstr.simps) (simp add: rd_def)
next
  case (Cons c cs)
  have "cstr ((pre @ [Some c]) @ map Some cs @ Some 0 # rest) (length (pre @ [Some c])) =
         Inr (map (\<lambda>c. char_of (unat c)) cs)"
    using Cons.prems by (intro Cons.IH) simp
  then show ?case using Cons.prems
    by (subst cstr.simps) (simp add: rd_def nth_append)
qed

subsection \<open>The symbols are 5-bit values\<close>

lemma m5: "(0x1F :: 32 word) = mask 5" by (simp add: mask_eq_decr_exp)

lemma bit_c_shr: "bit (c_shr a k) n \<longleftrightarrow> n < 5 \<and> k + n < 8 \<and> bit a (k + n)"
  unfolding c_shr_def m5
  by (auto simp add: bit_ucast_iff bit_and_iff bit_drop_bit_eq bit_mask_iff dest: bit_imp_le_length)

lemma bit_c_shl: "bit (c_shl a k) n \<longleftrightarrow> n < 5 \<and> k \<le> n \<and> bit a (n - k)"
  unfolding c_shl_def m5
  by (auto simp add: bit_ucast_iff bit_and_iff bit_push_bit_iff bit_mask_iff dest: bit_imp_le_length)

lemma bit_c_low: "bit (c_low a) n \<longleftrightarrow> n < 5 \<and> bit a n"
  unfolding c_low_def m5
  by (auto simp add: bit_ucast_iff bit_and_iff bit_mask_iff dest: bit_imp_le_length)

lemma sym5_bits: "sym5 v \<longleftrightarrow> (\<forall>n. bit v n \<longrightarrow> n < 5)"
proof
  assume "sym5 v"
  then have "unat (take_bit 5 v) = unat v"
    by (simp add: unsigned_take_bit_eq take_bit_nat_eq_self sym5_def)
  then have "take_bit 5 v = v" by (simp only: word_unat_eq_iff)
  then have "bit v n = bit (take_bit 5 v) n" for n by simp
  then have "bit v n \<Longrightarrow> n < 5" for n unfolding bit_take_bit_iff by blast
  then show "\<forall>n. bit v n \<longrightarrow> n < 5" by blast
next
  assume b: "\<forall>n. bit v n \<longrightarrow> n < 5"
  have "take_bit 5 v = v"
    using b by (intro bit_word_eqI) (auto simp: bit_take_bit_iff)
  then have "unat v = take_bit 5 (unat v)"
    by (metis unsigned_take_bit_eq)
  also have "\<dots> < 2 ^ 5" by (rule take_bit_nat_less_exp)
  finally show "sym5 v" by (simp add: sym5_def)
qed

lemma sym5_simps [simp]: "sym5 (c_shr a k)" "sym5 (c_shl a k)" "sym5 (c_low a)"
  "sym5 v \<Longrightarrow> sym5 w \<Longrightarrow> sym5 (v OR w)"
  by (auto simp: sym5_bits bit_c_shr bit_c_shl bit_c_low bit_or_iff)

lemma sym5_lt: "sym5 v \<Longrightarrow> unat v < 32"
  by (simp add: sym5_def)

lemma enc_syms_sym5: "\<forall>v \<in> set (enc_syms xs). sym5 v"
  by (induction xs rule: enc_syms.induct) simp_all

lemma div5_step: "(5 + n) div 5 = Suc (n div 5)" for n :: nat
  by presburger

lemma length_enc_syms:
  "length (enc_syms xs) = 8 * (length xs div 5) + [0, 2, 4, 5, 7] ! (length xs mod 5)"
  by (induction xs rule: enc_syms.induct) (simp_all add: div5_step)

lemma length_enc_syms_le: "length (enc_syms xs) \<le> (length xs + 4) div 5 * 8"
proof -
  define q m where "q = length xs div 5" and "m = length xs mod 5"
  have n: "length xs = 5 * q + m" by (simp add: q_def m_def)
  have d: "(length xs + 4) div 5 = q + (m + 4) div 5"
    unfolding n by (simp add: add.assoc)
  have "m < 5" by (simp add: m_def)
  then consider "m = 0" | "m = 1" | "m = 2" | "m = 3" | "m = 4" by linarith
  then show ?thesis
    unfolding d length_enc_syms q_def [symmetric] m_def [symmetric]
    by cases simp_all
qed

lemma pad_count:
  "xs \<noteq> [] \<Longrightarrow> (length xs + 4) div 5 * 8 - length (enc_syms xs) = [0, 6, 4, 3, 1] ! (length xs mod 5)"
proof -
  assume ne: "xs \<noteq> []"
  define q m where "q = length xs div 5" and "m = length xs mod 5"
  have n: "length xs = 5 * q + m" by (simp add: q_def m_def)
  have d: "(length xs + 4) div 5 = q + (m + 4) div 5"
    unfolding n by (simp add: add.assoc)
  have "m < 5" by (simp add: m_def)
  then consider "m = 0" | "m = 1" | "m = 2" | "m = 3" | "m = 4" by linarith
  then show ?thesis
    unfolding d length_enc_syms q_def [symmetric] m_def [symmetric]
    by cases simp_all
qed

lemma base32_tab: "\<forall>k \<in> set [0..<32]. base32 ! k \<noteq> 0 \<and> char_of (unat (base32 ! k)) = alphabet ! k"
  by code_simp

lemma base32_nth:
  assumes "k < 32"
  shows "base32 ! k \<noteq> 0" and "char_of (unat (base32 ! k)) = alphabet ! k"
  using base32_tab assms by auto

lemma length_base32 [simp]: "length base32 = 33"
  by (simp add: base32_def)

lemma size_t_id: "n < 2 ^ 64 \<Longrightarrow> size_t n = n"
  by (simp add: size_t_def)

lemma out_size_eq:
  assumes "n < 2 ^ 63"
  shows "size_t (size_t (n + 4) div 5 * 8) = (n + 4) div 5 * 8"
    and "size_t ((n + 4) div 5 * 8 + 1) = (n + 4) div 5 * 8 + 1"
proof -
  have a: "size_t (n + 4) = n + 4" using assms by (intro size_t_id) simp
  have b: "(n + 4) div 5 * 8 + 1 < 2 ^ 64" using assms by simp
  show "size_t (size_t (n + 4) div 5 * 8) = (n + 4) div 5 * 8"
    unfolding a using b by (intro size_t_id) simp
  show "size_t ((n + 4) div 5 * 8 + 1) = (n + 4) div 5 * 8 + 1"
    using b by (rule size_t_id)
qed

lemma pad_char: "char_of (unat (of_char CHR ''='' :: byte)) = CHR ''=''"
  by code_simp

lemma base32enc_syms:
  assumes ne: "inp \<noteq> []" and small: "length inp < 2 ^ 63"
  shows "base32enc inp (length inp) =
     Inr (map tr_char (enc_syms inp) @
          replicate ((length inp + 4) div 5 * 8 - length (enc_syms inp)) CHR ''='')"
proof -
  define N where "N = (length inp + 4) div 5 * 8"
  define syms where "syms = enc_syms inp"
  define n where "n = length syms"
  define cs where "cs = map (\<lambda>v. base32 ! unat v) syms"
  define M where "M = N + 1"
  define pc :: byte where "pc = of_char CHR ''=''"
  have nN: "n \<le> N" unfolding n_def N_def syms_def by (rule length_enc_syms_le)
  have lt: "\<forall>v \<in> set syms. unat v < 32"
    using enc_syms_sym5 [of inp] sym5_lt by (auto simp: syms_def)
  have e1: "enc_loop inp (length inp) (replicate M None) 0 0 =
     Inr (map Some syms @ replicate (M - n) None, n)"
  proof -
    have "enc_loop inp (length inp) (replicate M None) 0 0 =
       Inr (blit (replicate M None) 0 (map Some syms), 0 + length syms)"
      unfolding syms_def using ne nN
      by (intro enc_loop_syms) (simp_all add: n_def syms_def M_def)
    moreover have "blit ([] @ replicate M None) (length ([] :: buf)) (map Some syms) =
        [] @ map Some syms @ drop (length (map Some syms)) (replicate M None)"
      using nN by (intro blit_at_end) (simp add: n_def M_def)
    ultimately show ?thesis by (simp add: n_def)
  qed
  have e2: "tr_loop (map Some syms @ replicate (M - n) None) n 0 =
     Inr (map Some cs @ replicate (M - n) None)"
  proof -
    have "tr_loop ([] @ map Some syms @ replicate (M - n) None) (length ([] :: buf) + length syms) (length ([] :: buf)) =
       Inr ([] @ map (\<lambda>v. Some (base32 ! unat v)) syms @ replicate (M - n) None)"
      using lt by (intro tr_loop_map) auto
    then show ?thesis by (simp add: n_def cs_def comp_def)
  qed
  have e3: "pad_loop (map Some cs @ replicate (M - n) None) n N =
     Inr (map Some cs @ replicate (N - n) (Some pc) @ [None], N)"
  proof -
    have "pad_loop (map Some cs @ replicate (M - n) None) (length (map Some cs)) N =
      Inr (map Some cs @ replicate (N - length (map Some cs)) (Some pc) @
             drop (N - length (map Some cs)) (replicate (M - n) None),
           max (length (map Some cs)) N)"
      unfolding pc_def using nN by (intro pad_loop_fill) (simp add: cs_def n_def M_def)
    moreover have "M - n - (N - n) = Suc 0" using nN by (simp add: M_def)
    ultimately show ?thesis using nN by (simp add: cs_def n_def max_def)
  qed
  have e4: "wr (map Some cs @ replicate (N - n) (Some pc) @ [None]) N 0 =
     Inr (map Some (cs @ replicate (N - n) pc) @ [Some 0])"
  proof -
    have "length (map Some cs @ replicate (N - n) (Some pc)) = N"
      using nN by (simp add: cs_def n_def)
    then show ?thesis
      by (simp add: wr_def list_update_append cs_def n_def map_replicate)
  qed
  have e5: "cstr (map Some (cs @ replicate (N - n) pc) @ [Some 0]) 0 =
     Inr (map (\<lambda>c. char_of (unat c)) (cs @ replicate (N - n) pc))"
  proof -
    have "\<forall>c \<in> set (cs @ replicate (N - n) pc). c \<noteq> (0 :: byte)"
      using lt base32_nth(1) by (auto simp: cs_def pc_def)
    then have "cstr ([] @ map Some (cs @ replicate (N - n) pc) @ Some 0 # []) (length ([] :: buf)) =
       Inr (map (\<lambda>c. char_of (unat c)) (cs @ replicate (N - n) pc))"
      by (rule cstr_read)
    then show ?thesis by simp
  qed
  have o1: "size_t (size_t (length inp + 4) div 5 * 8) = N"
    and o2: "size_t (N + 1) = M"
    using out_size_eq [OF small] by (simp_all add: N_def M_def)
  have "base32enc inp (length inp) =
      Inr (map (\<lambda>c. char_of (unat c)) (cs @ replicate (N - n) pc))"
    unfolding base32enc_def Let_def o1 o2 pc_def [symmetric]
    by (simp only: e1 e2 e3 e4 e5 bindE_Inr prod.case)
  then show ?thesis
    unfolding cs_def N_def n_def syms_def pc_def
    by (simp only: map_append map_map map_replicate pad_char comp_def tr_char_def [abs_def])
qed

subsection \<open>The encoder against the reference\<close>

lemma quintets_Nil [simp]: "quintets [] = []"
  by (simp add: quintets.simps)

lemma quintets_Cons: "quintets (x # xs) = take 5 ((x # xs) @ replicate 4 False) # quintets (drop 5 (x # xs))"
  by (subst quintets.simps) simp

lemma rfc_base32_Nil [simp]: "rfc_base32 [] = []"
  by (simp add: rfc_base32.simps)

lemma rfc_base32_Cons: "rfc_base32 (x # xs) = rfc_group (take 5 (x # xs)) @ rfc_base32 (drop 5 (x # xs))"
  by (subst rfc_base32.simps) simp

lemma bit_h5: "bit (horner_sum of_bool 2 [b0,b1,b2,b3,b4] :: byte) n \<longleftrightarrow>
    (n = 0 \<and> b0 \<or> n = 1 \<and> b1 \<or> n = 2 \<and> b2 \<or> n = 3 \<and> b3 \<or> n = 4 \<and> b4)"
proof (cases "n < 5")
  case True
  then consider "n = 0" | "n = 1" | "n = 2" | "n = 3" | "n = 4" by linarith
  then show ?thesis
    by cases (simp_all add: bit_horner_sum_bit_word_iff del: horner_sum_simps)
next
  case False
  then show ?thesis
    by (simp add: bit_horner_sum_bit_word_iff del: horner_sum_simps)
qed

lemma unat_h5: "unat (horner_sum of_bool 2 [b0,b1,b2,b3,b4] :: byte) = sym_val [b4,b3,b2,b1,b0]"
  by (cases b0; cases b1; cases b2; cases b3; cases b4; simp add: sym_val_def)

lemma sym_eqI:
  assumes "sym5 v" and "bit v 0 = b0" and "bit v 1 = b1" and "bit v 2 = b2"
    and "bit v 3 = b3" and "bit v 4 = b4"
  shows "unat (v :: byte) = sym_val [b4,b3,b2,b1,b0]"
proof -
  have "bit v n \<longleftrightarrow> (n = 0 \<and> b0 \<or> n = 1 \<and> b1 \<or> n = 2 \<and> b2 \<or> n = 3 \<and> b3 \<or> n = 4 \<and> b4)" for n
  proof (cases "n < 5")
    case True
    then consider "n = 0" | "n = 1" | "n = 2" | "n = 3" | "n = 4" by linarith
    then show ?thesis using assms(2-) by cases simp_all
  next
    case False
    then show ?thesis using assms(1) by (auto simp: sym5_bits)
  qed
  then have "v = horner_sum of_bool 2 [b0,b1,b2,b3,b4]"
    by (intro bit_word_eqI) (simp only: bit_h5)
  then show ?thesis by (simp only: unat_h5)
qed

lemma sym_vals:
  "unat (c_shr b0 3) = sym_val [bit b0 7, bit b0 6, bit b0 5, bit b0 4, bit b0 3]"
  "unat (c_shl b0 2) = sym_val [bit b0 2, bit b0 1, bit b0 0, False, False]"
  "unat (c_shl b0 2 OR c_shr b1 6) = sym_val [bit b0 2, bit b0 1, bit b0 0, bit b1 7, bit b1 6]"
  "unat (c_shr b1 1) = sym_val [bit b1 5, bit b1 4, bit b1 3, bit b1 2, bit b1 1]"
  "unat (c_shl b1 4) = sym_val [bit b1 0, False, False, False, False]"
  "unat (c_shl b1 4 OR c_shr b2 4) = sym_val [bit b1 0, bit b2 7, bit b2 6, bit b2 5, bit b2 4]"
  "unat (c_shl b2 1) = sym_val [bit b2 3, bit b2 2, bit b2 1, bit b2 0, False]"
  "unat (c_shl b2 1 OR c_shr b3 7) = sym_val [bit b2 3, bit b2 2, bit b2 1, bit b2 0, bit b3 7]"
  "unat (c_shr b3 2) = sym_val [bit b3 6, bit b3 5, bit b3 4, bit b3 3, bit b3 2]"
  "unat (c_shl b3 3) = sym_val [bit b3 1, bit b3 0, False, False, False]"
  "unat (c_shl b3 3 OR c_shr b4 5) = sym_val [bit b3 1, bit b3 0, bit b4 7, bit b4 6, bit b4 5]"
  "unat (c_low b4) = sym_val [bit b4 4, bit b4 3, bit b4 2, bit b4 1, bit b4 0]"
  by (rule sym_eqI; simp add: bit_c_shr bit_c_shl bit_c_low bit_or_iff eval_nat_numeral)+

lemma tr_char_alphabet: "sym5 v \<Longrightarrow> tr_char v = alphabet ! unat v"
  unfolding tr_char_def by (rule base32_nth(2)) (rule sym5_lt)

lemma tr_syms:
  "tr_char (c_shr b0 3) = alphabet ! sym_val [bit b0 7, bit b0 6, bit b0 5, bit b0 4, bit b0 3]"
  "tr_char (c_shl b0 2) = alphabet ! sym_val [bit b0 2, bit b0 1, bit b0 0, False, False]"
  "tr_char (c_shl b0 2 OR c_shr b1 6) = alphabet ! sym_val [bit b0 2, bit b0 1, bit b0 0, bit b1 7, bit b1 6]"
  "tr_char (c_shr b1 1) = alphabet ! sym_val [bit b1 5, bit b1 4, bit b1 3, bit b1 2, bit b1 1]"
  "tr_char (c_shl b1 4) = alphabet ! sym_val [bit b1 0, False, False, False, False]"
  "tr_char (c_shl b1 4 OR c_shr b2 4) = alphabet ! sym_val [bit b1 0, bit b2 7, bit b2 6, bit b2 5, bit b2 4]"
  "tr_char (c_shl b2 1) = alphabet ! sym_val [bit b2 3, bit b2 2, bit b2 1, bit b2 0, False]"
  "tr_char (c_shl b2 1 OR c_shr b3 7) = alphabet ! sym_val [bit b2 3, bit b2 2, bit b2 1, bit b2 0, bit b3 7]"
  "tr_char (c_shr b3 2) = alphabet ! sym_val [bit b3 6, bit b3 5, bit b3 4, bit b3 3, bit b3 2]"
  "tr_char (c_shl b3 3) = alphabet ! sym_val [bit b3 1, bit b3 0, False, False, False]"
  "tr_char (c_shl b3 3 OR c_shr b4 5) = alphabet ! sym_val [bit b3 1, bit b3 0, bit b4 7, bit b4 6, bit b4 5]"
  "tr_char (c_low b4) = alphabet ! sym_val [bit b4 4, bit b4 3, bit b4 2, bit b4 1, bit b4 0]"
  by (simp_all only: tr_char_alphabet sym5_simps sym_vals)

lemma quintets_5: "quintets (a0 # a1 # a2 # a3 # a4 # bs) = [a0, a1, a2, a3, a4] # quintets bs"
  by (simp add: quintets_Cons)

lemma quintets_tail:
  "quintets [a0] = [[a0, False, False, False, False]]"
  "quintets [a0, a1] = [[a0, a1, False, False, False]]"
  "quintets [a0, a1, a2] = [[a0, a1, a2, False, False]]"
  "quintets [a0, a1, a2, a3] = [[a0, a1, a2, a3, False]]"
  by (simp_all add: quintets_Cons eval_nat_numeral)

lemma rfc_groupI:
  "quintets (concat (map bits_msb g)) = qs \<Longrightarrow> map (\<lambda>q. alphabet ! sym_val q) qs = s \<Longrightarrow>
   8 - length s = k \<Longrightarrow> rfc_group g = s @ replicate k CHR ''=''"
  by (simp add: rfc_group_def Let_def)

lemma rfc_group_1: "rfc_group [b0] = map tr_char (enc_syms [b0]) @ replicate 6 CHR ''=''"
proof (rule rfc_groupI)
  show "quintets (concat (map bits_msb [b0])) =
      [[bit b0 7, bit b0 6, bit b0 5, bit b0 4, bit b0 3],
       [bit b0 2, bit b0 1, bit b0 0, False, False]]"
    unfolding bits_msb_def
    by (simp only: list.map concat.simps append_Cons append_Nil quintets_5 quintets_tail quintets_Nil)
  show "map (\<lambda>q. alphabet ! sym_val q)
      [[bit b0 7, bit b0 6, bit b0 5, bit b0 4, bit b0 3],
       [bit b0 2, bit b0 1, bit b0 0, False, False]] = map tr_char (enc_syms [b0])"
    by (simp only: list.map enc_syms.simps append_Nil2 tr_syms)
  show "8 - length (map tr_char (enc_syms [b0])) = 6"
    by simp
qed

lemma rfc_group_2: "rfc_group [b0, b1] = map tr_char (enc_syms [b0, b1]) @ replicate 4 CHR ''=''"
proof (rule rfc_groupI)
  show "quintets (concat (map bits_msb [b0, b1])) =
      [[bit b0 7, bit b0 6, bit b0 5, bit b0 4, bit b0 3],
       [bit b0 2, bit b0 1, bit b0 0, bit b1 7, bit b1 6],
       [bit b1 5, bit b1 4, bit b1 3, bit b1 2, bit b1 1],
       [bit b1 0, False, False, False, False]]"
    unfolding bits_msb_def
    by (simp only: list.map concat.simps append_Cons append_Nil quintets_5 quintets_tail quintets_Nil)
  show "map (\<lambda>q. alphabet ! sym_val q)
      [[bit b0 7, bit b0 6, bit b0 5, bit b0 4, bit b0 3],
       [bit b0 2, bit b0 1, bit b0 0, bit b1 7, bit b1 6],
       [bit b1 5, bit b1 4, bit b1 3, bit b1 2, bit b1 1],
       [bit b1 0, False, False, False, False]] = map tr_char (enc_syms [b0, b1])"
    by (simp only: list.map enc_syms.simps append_Nil2 tr_syms)
  show "8 - length (map tr_char (enc_syms [b0, b1])) = 4"
    by simp
qed

lemma rfc_group_3: "rfc_group [b0, b1, b2] = map tr_char (enc_syms [b0, b1, b2]) @ replicate 3 CHR ''=''"
proof (rule rfc_groupI)
  show "quintets (concat (map bits_msb [b0, b1, b2])) =
      [[bit b0 7, bit b0 6, bit b0 5, bit b0 4, bit b0 3],
       [bit b0 2, bit b0 1, bit b0 0, bit b1 7, bit b1 6],
       [bit b1 5, bit b1 4, bit b1 3, bit b1 2, bit b1 1],
       [bit b1 0, bit b2 7, bit b2 6, bit b2 5, bit b2 4],
       [bit b2 3, bit b2 2, bit b2 1, bit b2 0, False]]"
    unfolding bits_msb_def
    by (simp only: list.map concat.simps append_Cons append_Nil quintets_5 quintets_tail quintets_Nil)
  show "map (\<lambda>q. alphabet ! sym_val q)
      [[bit b0 7, bit b0 6, bit b0 5, bit b0 4, bit b0 3],
       [bit b0 2, bit b0 1, bit b0 0, bit b1 7, bit b1 6],
       [bit b1 5, bit b1 4, bit b1 3, bit b1 2, bit b1 1],
       [bit b1 0, bit b2 7, bit b2 6, bit b2 5, bit b2 4],
       [bit b2 3, bit b2 2, bit b2 1, bit b2 0, False]] = map tr_char (enc_syms [b0, b1, b2])"
    by (simp only: list.map enc_syms.simps append_Nil2 tr_syms)
  show "8 - length (map tr_char (enc_syms [b0, b1, b2])) = 3"
    by simp
qed

lemma rfc_group_4: "rfc_group [b0, b1, b2, b3] = map tr_char (enc_syms [b0, b1, b2, b3]) @ replicate 1 CHR ''=''"
proof (rule rfc_groupI)
  show "quintets (concat (map bits_msb [b0, b1, b2, b3])) =
      [[bit b0 7, bit b0 6, bit b0 5, bit b0 4, bit b0 3],
       [bit b0 2, bit b0 1, bit b0 0, bit b1 7, bit b1 6],
       [bit b1 5, bit b1 4, bit b1 3, bit b1 2, bit b1 1],
       [bit b1 0, bit b2 7, bit b2 6, bit b2 5, bit b2 4],
       [bit b2 3, bit b2 2, bit b2 1, bit b2 0, bit b3 7],
       [bit b3 6, bit b3 5, bit b3 4, bit b3 3, bit b3 2],
       [bit b3 1, bit b3 0, False, False, False]]"
    unfolding bits_msb_def
    by (simp only: list.map concat.simps append_Cons append_Nil quintets_5 quintets_tail quintets_Nil)
  show "map (\<lambda>q. alphabet ! sym_val q)
      [[bit b0 7, bit b0 6, bit b0 5, bit b0 4, bit b0 3],
       [bit b0 2, bit b0 1, bit b0 0, bit b1 7, bit b1 6],
       [bit b1 5, bit b1 4, bit b1 3, bit b1 2, bit b1 1],
       [bit b1 0, bit b2 7, bit b2 6, bit b2 5, bit b2 4],
       [bit b2 3, bit b2 2, bit b2 1, bit b2 0, bit b3 7],
       [bit b3 6, bit b3 5, bit b3 4, bit b3 3, bit b3 2],
       [bit b3 1, bit b3 0, False, False, False]] = map tr_char (enc_syms [b0, b1, b2, b3])"
    by (simp only: list.map enc_syms.simps append_Nil2 tr_syms)
  show "8 - length (map tr_char (enc_syms [b0, b1, b2, b3])) = 1"
    by simp
qed

lemma rfc_group_5: "rfc_group [b0, b1, b2, b3, b4] = map tr_char (enc_syms [b0, b1, b2, b3, b4]) @ replicate 0 CHR ''=''"
proof (rule rfc_groupI)
  show "quintets (concat (map bits_msb [b0, b1, b2, b3, b4])) =
      [[bit b0 7, bit b0 6, bit b0 5, bit b0 4, bit b0 3],
       [bit b0 2, bit b0 1, bit b0 0, bit b1 7, bit b1 6],
       [bit b1 5, bit b1 4, bit b1 3, bit b1 2, bit b1 1],
       [bit b1 0, bit b2 7, bit b2 6, bit b2 5, bit b2 4],
       [bit b2 3, bit b2 2, bit b2 1, bit b2 0, bit b3 7],
       [bit b3 6, bit b3 5, bit b3 4, bit b3 3, bit b3 2],
       [bit b3 1, bit b3 0, bit b4 7, bit b4 6, bit b4 5],
       [bit b4 4, bit b4 3, bit b4 2, bit b4 1, bit b4 0]]"
    unfolding bits_msb_def
    by (simp only: list.map concat.simps append_Cons append_Nil quintets_5 quintets_tail quintets_Nil)
  show "map (\<lambda>q. alphabet ! sym_val q)
      [[bit b0 7, bit b0 6, bit b0 5, bit b0 4, bit b0 3],
       [bit b0 2, bit b0 1, bit b0 0, bit b1 7, bit b1 6],
       [bit b1 5, bit b1 4, bit b1 3, bit b1 2, bit b1 1],
       [bit b1 0, bit b2 7, bit b2 6, bit b2 5, bit b2 4],
       [bit b2 3, bit b2 2, bit b2 1, bit b2 0, bit b3 7],
       [bit b3 6, bit b3 5, bit b3 4, bit b3 3, bit b3 2],
       [bit b3 1, bit b3 0, bit b4 7, bit b4 6, bit b4 5],
       [bit b4 4, bit b4 3, bit b4 2, bit b4 1, bit b4 0]] = map tr_char (enc_syms [b0, b1, b2, b3, b4])"
    by (simp only: list.map enc_syms.simps append_Nil2 tr_syms)
  show "8 - length (map tr_char (enc_syms [b0, b1, b2, b3, b4])) = 0"
    by simp
qed

lemma code_str_rfc: "code_str inp = rfc_base32 inp"
proof (induction inp rule: enc_syms.induct)
  case 1
  show ?case by (simp add: code_str_def)
next
  case (2 b0)
  show ?case unfolding code_str_def by (simp add: rfc_base32_Cons rfc_group_1)
next
  case (3 b0 b1)
  show ?case unfolding code_str_def by (simp add: rfc_base32_Cons rfc_group_2)
next
  case (4 b0 b1 b2)
  show ?case unfolding code_str_def by (simp add: rfc_base32_Cons rfc_group_3)
next
  case (5 b0 b1 b2 b3)
  show ?case unfolding code_str_def by (simp add: rfc_base32_Cons rfc_group_4)
next
  case (6 b0 b1 b2 b3 b4 rest)
  have d: "(length (b0 # b1 # b2 # b3 # b4 # rest) + 4) div 5 * 8 = 8 + (length rest + 4) div 5 * 8"
    using div5_step [of "length rest + 4"] by (simp add: ac_simps)
  have "code_str (b0 # b1 # b2 # b3 # b4 # rest) = map tr_char (enc_syms [b0, b1, b2, b3, b4]) @ code_str rest"
    unfolding code_str_def d by simp
  also have "\<dots> = rfc_group [b0, b1, b2, b3, b4] @ rfc_base32 rest"
    by (simp only: rfc_group_5 "6.IH" replicate_0 append_Nil2)
  also have "\<dots> = rfc_base32 (b0 # b1 # b2 # b3 # b4 # rest)"
    by (simp add: rfc_base32_Cons)
  finally show ?case .
qed

lemma base32enc_rfc:
  assumes "inp \<noteq> []" and "length inp < 2 ^ 63"
  shows "base32enc inp (length inp) = Inr (rfc_base32 inp)"
  using base32enc_syms [OF assms] by (simp only: code_str_def [symmetric] code_str_rfc)

section \<open>The buffer of the rasterizer\<close>

lemma holds_Nil [simp]: "holds r []"
  by (simp add: holds_def)

lemma holds_prefix: "holds r (t @ u) \<Longrightarrow> holds r t"
proof -
  assume h: "holds r (t @ u)"
  then have "take (length t) (take (length (t @ u)) r) = take (length t) (map Some (t @ u))"
    by (simp only: holds_def)
  then have "take (length t) r = map Some t" by (simp add: min_def)
  then show ?thesis using h by (simp add: holds_def)
qed

lemma holds_snoc:
  assumes "holds r t" and "length t < length r"
  shows "holds (r[length t := Some c]) (t @ [c])"
proof -
  have "take (Suc (length t)) (r[length t := Some c]) = take (length t) (r[length t := Some c]) @ [r[length t := Some c] ! length t]"
    using assms(2) by (simp add: take_Suc_conv_app_nth)
  also have "\<dots> = map Some t @ [Some c]"
    using assms by (simp add: holds_def)
  finally show ?thesis using assms(2) by (simp add: holds_def)
qed

lemma put_holds:
  "holds r t \<Longrightarrow> length t + length xs \<le> length r \<Longrightarrow>
   \<exists>r'. put r (length t) xs = Inr r' \<and> length r' = length r \<and> holds r' (t @ xs)"
proof (induction xs arbitrary: r t)
  case Nil
  then show ?case by simp
next
  case (Cons c cs)
  let ?r = "r[length t := Some c]"
  have lt: "length t < length r" using Cons.prems(2) by simp
  have h: "holds ?r (t @ [c])" using Cons.prems(1) lt by (rule holds_snoc)
  have "\<exists>r'. put ?r (length (t @ [c])) cs = Inr r' \<and> length r' = length ?r \<and> holds r' ((t @ [c]) @ cs)"
    using h Cons.prems(2) by (intro Cons.IH) simp_all
  then show ?case using lt by (simp add: wr_def)
qed

lemma sprintf_holds:
  assumes "holds r t" and "length t + length s + 1 \<le> length r"
  shows "\<exists>r'. sprintf_at r (length t) s = Inr (r', length s) \<and> length r' = length r
     \<and> holds r' (t @ map of_char s @ [0])"
proof -
  obtain r' where "put r (length t) (map of_char s @ [0]) = Inr r'" "length r' = length r"
     "holds r' (t @ map of_char s @ [0])"
    using put_holds [OF assms(1), of "map of_char s @ [0]"] assms(2) by auto
  then show ?thesis by (simp add: sprintf_at_def)
qed


lemma length_lits [simp]:
  "length s_light = 7" "length s_dark = 7" "length s_eol = 12" "length fmt_margin = 13"
  "length (margin w) = 2 * w + 14" "length (qr_cell m) = 7"
  by (simp_all add: s_light_def s_dark_def s_eol_def fmt_margin_def margin_def qr_cell_def)

lemma sprintf_text:
  assumes "holds r (map of_char T)" and "length T + length s + 1 \<le> length r"
  shows "\<exists>r'. sprintf_at r (length T) s = Inr (r', length s) \<and> length r' = length r
     \<and> holds r' (map of_char (T @ s))"
proof -
  obtain r' where r': "sprintf_at r (length (map of_char T :: byte list)) s = Inr (r', length s)"
     "length r' = length r" "holds r' (map of_char T @ map of_char s @ [0])"
    using sprintf_holds [OF assms(1), of s] assms(2) by auto
  have "holds r' ((map of_char T @ map of_char s) @ [0])" using r'(3) by simp
  then have "holds r' (map of_char T @ map of_char s)" by (rule holds_prefix)
  then show ?thesis using r'(1,2) by simp
qed

lemma qr_cols_text:
  "holds r (map of_char T) \<Longrightarrow> x \<le> w \<Longrightarrow> y * w + w \<le> length d \<Longrightarrow>
   length T + 7 * (w - x) + 1 \<le> length r \<Longrightarrow>
   \<exists>r'. qr_cols w d y r (length T) x = Inr (r', length T + 7 * (w - x)) \<and> length r' = length r
     \<and> holds r' (map of_char (T @ concat (map (\<lambda>x. qr_cell (d ! (y * w + x))) [x..<w])))"
proof (induction "w - x" arbitrary: x r T)
  case 0
  then have "x = w" by simp
  then show ?case using "0.prems"(1) by (subst qr_cols.simps) simp
next
  case (Suc n)
  have xw: "x < w" using Suc.hyps(2) by simp
  define c where "c = qr_cell (d ! (y * w + x))"
  have lc: "length c = 7" by (simp add: c_def)
  have "1 \<le> w - x" using xw by simp
  then have "7 \<le> 7 * (w - x)" by simp
  then have sp: "length T + length c + 1 \<le> length r" using Suc.prems(4) lc by linarith
  obtain r1 where r1: "sprintf_at r (length T) c = Inr (r1, length c)" "length r1 = length r"
      "holds r1 (map of_char (T @ c))"
    using sprintf_text [OF Suc.prems(1) sp] by blast
  have "\<exists>r'. qr_cols w d y r1 (length (T @ c)) (Suc x) = Inr (r', length (T @ c) + 7 * (w - Suc x))
      \<and> length r' = length r1
      \<and> holds r' (map of_char ((T @ c) @ concat (map (\<lambda>x. qr_cell (d ! (y * w + x))) [Suc x..<w])))"
    using r1(2,3) Suc.hyps(2) Suc.prems(3,4) xw lc by (intro Suc.hyps(1)) simp_all
  then obtain r' where r': "qr_cols w d y r1 (length T + 7) (Suc x) = Inr (r', length T + 7 + 7 * (w - Suc x))"
      "length r' = length r"
      "holds r' (map of_char ((T @ c) @ concat (map (\<lambda>x. qr_cell (d ! (y * w + x))) [Suc x..<w])))"
    using lc r1(2) by auto
  have rd: "rd_data d (y * w + x) = Inr (d ! (y * w + x))"
    using xw Suc.prems(3) by (simp add: rd_data_def)
  have step: "qr_cols w d y r (length T) x = qr_cols w d y r1 (length T + 7) (Suc x)"
    using xw rd r1(1) lc by (subst qr_cols.simps) (simp add: c_def qr_cell_def)
  have arith: "length T + 7 + 7 * (w - Suc x) = length T + 7 * (w - x)" using xw by simp
  have upt: "[x..<w] = x # [Suc x..<w]" using xw by (rule upt_conv_Cons)
  show ?case
    using r' unfolding step arith upt by (auto simp: c_def)
qed


lemma length_concat_const:
  "(\<And>x. length (f x) = k) \<Longrightarrow> length (concat (map f xs)) = k * length xs"
  by (induction xs) simp_all

lemma qr_rows_text:
  "holds r (map of_char T) \<Longrightarrow> y \<le> w \<Longrightarrow> length d = w * w \<Longrightarrow>
   length T + (7 * w + 19) * (w - y) + 1 \<le> length r \<Longrightarrow>
   \<exists>r'. qr_rows w d r (length T) y = Inr (r', length T + (7 * w + 19) * (w - y)) \<and> length r' = length r
     \<and> holds r' (map of_char (T @ concat (map (qr_row w d) [y..<w])))"
proof (induction "w - y" arbitrary: y r T)
  case 0
  then have "y = w" by simp
  then show ?case using "0.prems"(1) by (subst qr_rows.simps) simp
next
  case (Suc n)
  have yw: "y < w" using Suc.hyps(2) by simp
  define K where "K = 7 * w + 19"
  define cells where "cells = concat (map (\<lambda>x. qr_cell (d ! (y * w + x))) [0..<w])"
  have split: "K * (w - y) = K + K * (w - Suc y)"
    using yw by (metis Suc_diff_Suc mult_Suc_right)
  have room: "length T + K + K * (w - Suc y) + 1 \<le> length r"
    using Suc.prems(4) unfolding K_def [symmetric] split by simp
  have "Suc y * w \<le> w * w" using yw by (intro mult_le_mono1) simp
  then have dlen: "y * w + w \<le> length d" using Suc.prems(3) by simp
  \<comment> \<open>left margin block\<close>
  have sp1: "length T + length s_light + 1 \<le> length r" using room by (simp add: K_def)
  obtain r1 where r1: "sprintf_at r (length T) s_light = Inr (r1, length s_light)"
      "length r1 = length r" "holds r1 (map of_char (T @ s_light))"
    using sprintf_text [OF Suc.prems(1) sp1] by blast
  \<comment> \<open>the cells\<close>
  have sp2: "length (T @ s_light) + 7 * (w - 0) + 1 \<le> length r1"
    using room r1(2) by (simp add: K_def)
  obtain r2 where r2: "qr_cols w d y r1 (length (T @ s_light)) 0 = Inr (r2, length (T @ s_light) + 7 * (w - 0))"
      "length r2 = length r1" "holds r2 (map of_char ((T @ s_light) @ cells))"
    using qr_cols_text [OF r1(3) _ dlen sp2] unfolding cells_def by blast
  \<comment> \<open>right margin block and line break\<close>
  have "length cells = 7 * length [0..<w]"
    unfolding cells_def by (rule length_concat_const) simp
  then have lcells: "length cells = 7 * w" by simp
  then have len2: "length ((T @ s_light) @ cells) = length T + 7 + 7 * w"
    by simp
  have sp3: "length ((T @ s_light) @ cells) + length s_eol + 1 \<le> length r2"
    unfolding len2 using room r1(2) r2(2) by (simp add: K_def)
  obtain r3 where r3: "sprintf_at r2 (length ((T @ s_light) @ cells)) s_eol = Inr (r3, length s_eol)"
      "length r3 = length r2" "holds r3 (map of_char (((T @ s_light) @ cells) @ s_eol))"
    using sprintf_text [OF r2(3) sp3] by blast
  have row: "((T @ s_light) @ cells) @ s_eol = T @ qr_row w d y"
    by (simp add: qr_row_def cells_def)
  have len3: "length (T @ qr_row w d y) = length T + K"
    unfolding row [symmetric] by (simp add: lcells K_def)
  have "\<exists>r'. qr_rows w d r3 (length (T @ qr_row w d y)) (Suc y) =
        Inr (r', length (T @ qr_row w d y) + (7 * w + 19) * (w - Suc y))
      \<and> length r' = length r3
      \<and> holds r' (map of_char ((T @ qr_row w d y) @ concat (map (qr_row w d) [Suc y..<w])))"
  proof (intro Suc.hyps(1))
    show "n = w - Suc y" using Suc.hyps(2) by simp
    show "holds r3 (map of_char (T @ qr_row w d y))" using r3(3) by (simp only: row)
    show "Suc y \<le> w" using yw by simp
    show "length d = w * w" by (rule Suc.prems(3))
    show "length (T @ qr_row w d y) + (7 * w + 19) * (w - Suc y) + 1 \<le> length r3"
      unfolding len3 using room r1(2) r2(2) r3(2) by (simp add: K_def)
  qed
  then obtain r' where r': "qr_rows w d r3 (length T + K) (Suc y) = Inr (r', length T + K + K * (w - Suc y))"
      "length r' = length r"
      "holds r' (map of_char ((T @ qr_row w d y) @ concat (map (qr_row w d) [Suc y..<w])))"
    unfolding len3 K_def [symmetric] using r1(2) r2(2) r3(2) by auto
  have step: "qr_rows w d r (length T) y = qr_rows w d r3 (length T + K) (Suc y)"
    using yw r1(1) r2(1) r3(1) unfolding len2
    by (subst qr_rows.simps) (simp add: K_def ac_simps)
  have upt: "[y..<w] = y # [Suc y..<w]" using yw by (rule upt_conv_Cons)
  show ?case
    using r' unfolding step K_def [symmetric] split upt by (auto simp: add.assoc)
qed


lemma unat_of_char: "unat (of_char c :: byte) = of_char c"
proof -
  have "unat (of_nat (of_char c) :: byte) = of_char c mod 256"
    by (simp add: unat_of_nat)
  then show ?thesis by (simp add: of_nat_of_char)
qed

lemma char_of_unat_of_char: "char_of (unat (of_char c :: byte)) = c"
  by (simp add: unat_of_char)

lemma of_char_byte_0: "(of_char c :: byte) = 0 \<longleftrightarrow> c = CHR 0x00"
proof -
  have "(of_char c :: byte) = of_char (CHR 0x00) \<longleftrightarrow> c = CHR 0x00"
    by (metis unat_of_char of_char_eq_iff)
  then show ?thesis by simp
qed

lemma cstr_holds:
  assumes "holds r (map of_char T @ [0])" and "CHR 0x00 \<notin> set T"
  shows "cstr r 0 = Inr T"
proof -
  let ?n = "length (map of_char T @ [0 :: byte])"
  have "r = take ?n r @ drop ?n r" by simp
  also have "take ?n r = map Some (map of_char T) @ [Some 0]"
    using assms(1) by (simp add: holds_def)
  finally have r: "r = [] @ map Some (map of_char T) @ Some 0 # drop ?n r" by simp
  have nz: "\<forall>c \<in> set (map of_char T :: byte list). c \<noteq> 0"
    using assms(2) by (auto simp: of_char_byte_0)
  have "cstr ([] @ map Some (map of_char T) @ Some 0 # drop ?n r) (length ([] :: buf)) =
      Inr (map (\<lambda>c. char_of (unat c)) (map of_char T :: byte list))"
    using nz by (rule cstr_read)
  then have "cstr r 0 = Inr (map (\<lambda>c. char_of (unat c)) (map of_char T :: byte list))"
    using r by simp
  then show ?thesis by (simp add: comp_def char_of_unat_of_char)
qed

lemma qr_text_no_nul: "CHR 0x00 \<notin> set (qr_text w d)"
  by (auto simp: qr_text_def qr_row_def qr_cell_def margin_def s_light_def s_dark_def s_eol_def ESC_def)

lemma length_qr_text: "length (qr_text w d) = 7 * w * w + 23 * w + 28"
proof -
  have "length (qr_row w d y) = 7 * w + 19" for y
  proof -
    have "length (concat (map (\<lambda>x. qr_cell (d ! (y * w + x))) [0..<w])) = 7 * length [0..<w]"
      by (rule length_concat_const) simp
    then show ?thesis by (simp add: qr_row_def)
  qed
  then have "length (concat (map (qr_row w d) [0..<w])) = (7 * w + 19) * length [0..<w]"
    by (rule length_concat_const)
  then show ?thesis by (simp add: qr_text_def algebra_simps)
qed

lemma qr_alloc_eq:
  assumes "w * w < 2 ^ 31"
  shows "qr_alloc w = 7 * w * w + 23 * w + 31"
proof -
  define q where "q = w * w"
  have "w \<le> q" unfolding q_def by (cases w) simp_all
  moreover have "q < 2 ^ 31" using assms by (simp only: q_def)
  ultimately have "7 * q + 23 * w + 31 < 2 ^ 64" by simp
  then have "7 * w * w + 23 * w + 31 < 2 ^ 64" by (simp only: q_def mult.assoc)
  moreover have "2 * ((w + 2) * 2 - 2 + length fmt_margin)
             + w * (length s_light * (w + 1) + length s_eol) + 1 = 7 * w * w + 23 * w + 31"
    by (simp add: algebra_simps)
  ultimately show ?thesis by (simp only: qr_alloc_def size_t_id)
qed

section \<open>Option parsing and the commands\<close>

lemmas proc_defs = bindP_def ret_def emit_def exit_with_def extern_def chkrc_def

lemma opts_loop_no_events:
  "opts_loop sc rs k p = (evs, Inr q) \<Longrightarrow> evs = [] \<and> opt_cmd q = opt_cmd p"
proof (induction rs arbitrary: k p)
  case Nil
  then show ?case by simp
next
  case (Cons r rs)
  obtain c a li where r: "r = Opt c a li" by (cases r)
  show ?case
    using Cons.prems Cons.IH unfolding r
    by (auto simp: Let_def split: if_splits option.splits)
qed

lemma command_of_Some: "command_of a = Some c \<Longrightarrow> c \<noteq> CMD_NONE"
  by (auto simp: command_of_def split: if_splits)

lemma parse_opts_Inr:
  assumes "parse_opts sc argv = (evs, Inr p)"
  shows "evs = []" and "opt_cmd p \<noteq> CMD_NONE"
  using assms
  by (auto simp: parse_opts_def Let_def split: prod.splits sum.splits list.splits option.splits if_splits
           dest: opts_loop_no_events command_of_Some)

lemma sint_small:
  assumes "unat (v :: 64 word) < 2 ^ 63"
  shows "sint v = int (unat v)"
proof -
  have "int (unat v) < int (2 ^ 63)" using assms by (simp only: of_nat_less_iff)
  then have hi: "uint v < 2 ^ 63" by simp
  have "(0 :: int) \<le> uint v" by simp
  moreover have "- (2 ^ 63) \<le> (0 :: int)" by simp
  ultimately have lo: "- (2 ^ 63) \<le> uint v" by (rule order_trans [rotated])
  have "sint v = signed_take_bit 63 (uint v)" by (simp add: sint_uint)
  also have "\<dots> = uint v"
    using lo hi by (rule signed_take_bit_int_eq_self)
  finally show ?thesis by simp
qed

lemma fmt_06ld_small:
  assumes "unat v < 1000000"
  shows "fmt_06ld v = zero_pad 6 (dec (unat v))"
proof -
  have "unat v < 2 ^ 63" using assms by simp
  then have "sint v = int (unat v)" by (rule sint_small)
  then show ?thesis by (simp add: fmt_06ld_def)
qed

lemma dec_digits: "set (dec n) \<subseteq> set ''0123456789''"
proof (induction n rule: dec.induct)
  case (1 n)
  have d: "k < 10 \<Longrightarrow> ''0123456789'' ! k \<in> set ''0123456789''" for k
    by (rule nth_mem) simp
  show ?case
  proof (cases "n < 10")
    case True
    then show ?thesis using d [of n] by (subst dec.simps) simp
  next
    case False
    have "n mod 10 < 10" by simp
    then show ?thesis using False 1 d [of "n mod 10"] by (subst dec.simps) simp
  qed
qed

lemma length_dec: "n < 10 ^ k \<Longrightarrow> 0 < k \<Longrightarrow> length (dec n) \<le> k"
proof (induction k arbitrary: n)
  case 0
  then show ?case by simp
next
  case (Suc k)
  show ?case
  proof (cases "n < 10")
    case True
    then show ?thesis by (subst dec.simps) simp
  next
    case False
    then have k: "0 < k" using Suc.prems(1) by (cases k) simp_all
    have "n div 10 < 10 ^ k" using Suc.prems(1) by (simp add: less_mult_imp_div_less mult.commute)
    then have "length (dec (n div 10)) \<le> k" using k by (rule Suc.IH)
    then show ?thesis using False by (subst dec.simps) simp
  qed
qed

lemma six_digits:
  assumes "n < 1000000"
  shows "length (zero_pad 6 (dec n)) = 6" and "set (zero_pad 6 (dec n)) \<subseteq> set ''0123456789''"
proof -
  have "n < 10 ^ 6" using assms by simp
  then have "length (dec n) \<le> 6" by (rule length_dec) simp
  then show "length (zero_pad 6 (dec n)) = 6" by (simp add: zero_pad_def)
  show "set (zero_pad 6 (dec n)) \<subseteq> set ''0123456789''"
    using dec_digits [of n] by (auto simp: zero_pad_def)
qed


lemma calls_of_append [simp]: "calls_of (xs @ ys) = calls_of xs @ calls_of ys"
  by (induction xs rule: calls_of.induct) simp_all

lemma stdout_of_append [simp]: "stdout_of (xs @ ys) = stdout_of xs @ stdout_of ys"
  by (induction xs rule: stdout_of.induct) simp_all

lemma main_reseal:
  assumes "parse_opts (sscanf_nvindex w) argv = (evs0, Inr p)" and "opt_cmd p = CMD_RESEAL"
    and "tpm2totp_loadKey_nv w (opt_nvindex p) s0 = ((rc1, keyBlob), s1)"
    and "tpm2totp_reseal w keyBlob (opt_password p) 0 0 s1 = ((rc2, newBlob), s2)"
    and "tpm2totp_deleteKey_nv w (opt_nvindex p) s2 = (rc3, s3)"
    and "tpm2totp_storeKey_nv w newBlob (opt_nvindex p) s3 = (rc4, s4)"
  shows "main w argv s0 =
    (if rc1 \<noteq> 0 then (Exit 1, [Call (LoadKey_nv (opt_nvindex p)), Stderr_rc 266 rc1], s1)
     else if rc2 \<noteq> 0 then
       (Exit 1, [Call (LoadKey_nv (opt_nvindex p)), Call (Reseal keyBlob (opt_password p) 0 0),
                 Stderr_rc 271 rc2], s2)
     else if rc3 \<noteq> 0 then
       (Exit 1, [Call (LoadKey_nv (opt_nvindex p)), Call (Reseal keyBlob (opt_password p) 0 0),
                 Call (DeleteKey_nv (opt_nvindex p)), Stderr_rc 275 rc3], s3)
     else if rc4 \<noteq> 0 then
       (Exit 1, [Call (LoadKey_nv (opt_nvindex p)), Call (Reseal keyBlob (opt_password p) 0 0),
                 Call (DeleteKey_nv (opt_nvindex p)), Call (StoreKey_nv newBlob (opt_nvindex p)),
                 Stderr_rc 279 rc4], s4)
     else
       (Exit 0, [Call (LoadKey_nv (opt_nvindex p)), Call (Reseal keyBlob (opt_password p) 0 0),
                 Call (DeleteKey_nv (opt_nvindex p)), Call (StoreKey_nv newBlob (opt_nvindex p))], s4))"
proof -
  have "evs0 = []" using assms(1) by (rule parse_opts_Inr(1))
  then show ?thesis
    using assms by (simp add: main_def main_switch_def cmd_reseal_def proc_defs)
qed

lemma main_calculate:
  assumes "parse_opts (sscanf_nvindex w) argv = (evs0, Inr p)" and "opt_cmd p = CMD_CALCULATE"
    and "tpm2totp_loadKey_nv w (opt_nvindex p) s0 = ((0, keyBlob), s1)"
    and "tpm2totp_calculate w keyBlob s1 = ((0, now, totp), s2)"
    and "opt_time p \<noteq> 0 \<longrightarrow> strftime 99 (strftime_local w now) \<noteq> 0"
  shows "main w argv s0 =
    (Exit 0, [Call (LoadKey_nv (opt_nvindex p)), Call (Calculate keyBlob),
              Stdout ((if opt_time p \<noteq> 0 then strftime_local w now else []) @ fmt_06ld totp)], s2)"
proof -
  have "evs0 = []" using assms(1) by (rule parse_opts_Inr(1))
  then show ?thesis
    using assms by (auto simp: main_def main_switch_def cmd_calculate_def proc_defs)
qed

section \<open>Results on the encoder\<close>

lemma alphabet_no_pad: "CHR ''='' \<notin> set alphabet"
  by (simp add: alphabet_def)

lemma tr_char_not_pad: assumes "sym5 v" shows "tr_char v \<noteq> CHR ''=''"
proof -
  have "unat v < length alphabet" using assms by (simp add: sym5_def alphabet_def)
  then have "alphabet ! unat v \<in> set alphabet" by (rule nth_mem)
  then have "tr_char v \<in> set alphabet" using assms by (simp only: tr_char_alphabet)
  then show ?thesis using alphabet_no_pad by metis
qed

lemma count_list_replicate_same: "count_list (replicate k c) c = k"
  by (induction k) simp_all

lemma count_pad_code_str:
  "count_list (code_str inp) CHR ''='' = (length inp + 4) div 5 * 8 - length (enc_syms inp)"
proof -
  have "c \<in> set (map tr_char (enc_syms inp)) \<Longrightarrow> c \<noteq> CHR ''=''" for c
    using enc_syms_sym5 [of inp] tr_char_not_pad by (metis (no_types) imageE list.set_map)
  then have "CHR ''='' \<notin> set (map tr_char (enc_syms inp))" by blast
  then have "count_list (map tr_char (enc_syms inp)) CHR ''='' = 0"
    by (rule count_notin)
  then show ?thesis by (simp add: code_str_def count_list_replicate_same)
qed


lemma base32enc_size0:
  "base32enc inp 0 = (case inp of [] \<Rightarrow> Inl (In_OOB 0) | b # bs \<Rightarrow> Inl (Out_OOB 1))"
proof -
  have "enc_loop inp 0 [None] 0 0 = (case inp of [] \<Rightarrow> Inl (In_OOB 0) | b # bs \<Rightarrow> Inl (Out_OOB 1))"
    by (subst enc_loop.simps) (simp add: rd_in_def wr_def split: list.split)
  then show ?thesis
    by (simp add: base32enc_def size_t_def split: list.split)
qed

lemma base32enc_at:
  assumes "inp \<noteq> []" and "length inp < 2 ^ 63" and "length inp = n" and "code_str inp = s"
  shows "base32enc inp n = Inr s"
  using base32enc_syms [OF assms(1,2)] assms(3,4) by (simp only: code_str_def)

lemma base32enc_length:
  assumes "inp \<noteq> []" and "length inp < 2 ^ 63"
  shows "\<exists>s. base32enc inp (length inp) = Inr s \<and> length s = (length inp + 4) div 5 * 8"
  using base32enc_syms [OF assms] length_enc_syms_le [of inp] by simp

text \<open>
  \<^bold>\<open>C1\<close> (the code does not do what the claim says). The claim: \<^verbatim>\<open>base32enc\<close> is total over
  every input, the empty one included, reads only below \<^verbatim>\<open>in_size\<close> and never leaves its
  output buffer. With \<^verbatim>\<open>in_size = 0\<close> the loop body runs before the first test of
  \<^verbatim>\<open>in_size\<close>: it reads \<^verbatim>\<open>in[0]\<close>, which is not below \<^verbatim>\<open>in_size\<close>, and when that byte
  exists in a larger object it goes on to write \<^verbatim>\<open>r[1]\<close> in a buffer of
  \<^verbatim>\<open>out_size + 1 = 1\<close> byte.
\<close>

theorem base32enc_empty_input_faults:
  "base32enc [] 0 = Inl (In_OOB 0) \<and> base32enc (b # bs) 0 = Inl (Out_OOB 1)"
  by (simp add: base32enc_size0)

text \<open>
  \<^bold>\<open>C5\<close> (as stated, refuted). The claim gives 0, 1, 3, 4, 6 padding characters for
  \<^verbatim>\<open>len mod 5\<close> = 0, 1, 2, 3, 4. A single byte (\<^verbatim>\<open>len mod 5 = 1\<close>) is encoded with six
  of them, not one.
\<close>

theorem base32enc_padding_counterexample:
  "base32enc [0] 1 = Inr ''AA======'' \<and> length [0 :: byte] mod 5 = 1
   \<and> count_list ''AA======'' CHR ''='' = 6"
proof -
  have "code_str [0] = ''AA======''" by code_simp
  then have "base32enc [0] 1 = Inr ''AA======''" by (intro base32enc_at) simp_all
  then show ?thesis by simp
qed

text \<open>
  \<^bold>\<open>C5\<close> (amended). For every non-empty byte sequence whose length fits the \<^verbatim>\<open>size_t\<close>
  computation of \<^verbatim>\<open>out_size\<close>, the number of \<^verbatim>\<open>=\<close> characters in the output of
  \<^verbatim>\<open>base32enc\<close> is 0, 6, 4, 3, 1 according as \<^verbatim>\<open>len mod 5\<close> is 0, 1, 2, 3, 4: the table
  of RFC 4648, which is the claim's table read backwards.
\<close>

theorem base32enc_padding_count:
  assumes "inp \<noteq> []" and "length inp < 2 ^ 63"
  shows "\<exists>s. base32enc inp (length inp) = Inr s
    \<and> count_list s CHR ''='' = [0, 6, 4, 3, 1] ! (length inp mod 5)"
proof -
  have "base32enc inp (length inp) = Inr (code_str inp)"
    using base32enc_syms [OF assms] by (simp only: code_str_def)
  moreover have "count_list (code_str inp) CHR ''='' = [0, 6, 4, 3, 1] ! (length inp mod 5)"
    using pad_count [OF assms(1)] by (simp only: count_pad_code_str)
  ultimately show ?thesis by blast
qed

theorem base32enc_padding_count_witness:
  "[0x66, 0x6F :: byte] \<noteq> [] \<and> length [0x66, 0x6F :: byte] < 2 ^ 63
   \<and> (\<exists>s. base32enc [0x66, 0x6F] 2 = Inr s \<and> count_list s CHR ''='' = 4)"
proof -
  have len: "length [0x66, 0x6F :: byte] = 2" by simp
  show ?thesis using base32enc_padding_count [of "[0x66, 0x6F]"] unfolding len by simp
qed

text \<open>
  \<^bold>\<open>C6\<close>. For every non-empty byte sequence (of a length that fits the \<^verbatim>\<open>size_t\<close>
  computation of \<^verbatim>\<open>out_size\<close>) \<^verbatim>\<open>base32enc\<close> returns the RFC 4648 encoding
  \<open>rfc_base32\<close>: the bits of each group of up to five bytes, most significant first, cut
  into 5-bit symbols that are mapped through \<^verbatim>\<open>A\<close>-\<^verbatim>\<open>Z\<close>, \<^verbatim>\<open>2\<close>-\<^verbatim>\<open>7\<close>. Five zero bytes
  give \<^verbatim>\<open>AAAAAAAA\<close>.
\<close>

theorem base32enc_rfc4648:
  "(inp \<noteq> [] \<longrightarrow> length inp < 2 ^ 63 \<longrightarrow> base32enc inp (length inp) = Inr (rfc_base32 inp))
   \<and> base32enc [0, 0, 0, 0, 0] 5 = Inr ''AAAAAAAA''"
proof
  show "inp \<noteq> [] \<longrightarrow> length inp < 2 ^ 63 \<longrightarrow> base32enc inp (length inp) = Inr (rfc_base32 inp)"
    using base32enc_rfc by blast
  have "code_str [0, 0, 0, 0, 0] = ''AAAAAAAA''" by code_simp
  then show "base32enc [0, 0, 0, 0, 0] 5 = Inr ''AAAAAAAA''"
    by (intro base32enc_at) simp_all
qed

lemma rfc_base32_foobar: "rfc_base32 [0x66, 0x6F, 0x6F, 0x62, 0x61, 0x72] = ''MZXW6YTBOI======''"
  by code_simp

theorem base32enc_rfc4648_witness:
  "[0x66, 0x6F, 0x6F, 0x62, 0x61, 0x72 :: byte] \<noteq> []
   \<and> length [0x66, 0x6F, 0x6F, 0x62, 0x61, 0x72 :: byte] < 2 ^ 63
   \<and> base32enc [0x66, 0x6F, 0x6F, 0x62, 0x61, 0x72] 6 = Inr ''MZXW6YTBOI======''"
proof -
  have len: "length [0x66, 0x6F, 0x6F, 0x62, 0x61, 0x72 :: byte] = 6" by simp
  show ?thesis
    using base32enc_rfc4648 [of "[0x66, 0x6F, 0x6F, 0x62, 0x61, 0x72]"]
    unfolding len rfc_base32_foobar by simp
qed

text \<open>
  \<^bold>\<open>C7\<close> (the code does not do what the claim says). The claim: the result has length
  \<^verbatim>\<open>ceil(len / 5) * 8\<close> for every input, and the empty input gives the empty string. For
  non-empty inputs this is \<open>base32enc_length\<close>. With \<^verbatim>\<open>in_size = 0\<close> the function
  returns no string at all, whatever \<^verbatim>\<open>in\<close> points to: the first pass of the loop needs
  two cells of a one-byte buffer.
\<close>

theorem base32enc_empty_no_string:
  "base32enc inp 0 \<noteq> Inr s"
  by (simp add: base32enc_size0 split: list.split)

section \<open>Results on the rasterizer\<close>

text \<open>
  \<^bold>\<open>C8\<close>. For every width \<open>w\<close> and every content of the \<open>w * w\<close> modules,
  \<^verbatim>\<open>qrencode\<close> fills its buffer without a write outside it: the model returns the text
  \<open>qr_text\<close> (two margin rows and \<open>w\<close> data rows with their colour sequences and line
  breaks) and no \<open>Out_OOB\<close> fault, and that text with its terminating NUL is not longer
  than the allocated size. The width is that of a matrix whose module index
  \<^verbatim>\<open>y*width + x\<close> fits the C \<^verbatim>\<open>int\<close> it is computed in (QR codes have widths 21 to 177).
\<close>

theorem qr_render_fits:
  assumes "length d = w * w" and "w * w < 2 ^ 31"
  shows "qr_render w d = Inr (qr_text w d) \<and> length (qr_text w d) + 1 \<le> qr_alloc w"
proof -
  define A where "A = qr_alloc w"
  define rows where "rows = concat (map (qr_row w d) [0..<w])"
  have A: "A = 7 * w * w + 23 * w + 31" unfolding A_def using assms(2) by (rule qr_alloc_eq)
  have lt: "length (margin w @ rows @ margin w) = 7 * w * w + 23 * w + 28"
    using length_qr_text [of w d] by (simp only: qr_text_def rows_def)
  then have lrows: "length rows = 7 * w * w + 19 * w" by simp
  define r0 :: buf where "r0 = replicate A None"
  have h0: "holds r0 (map of_char [])" by simp
  have "length ([] :: string) + length (margin w) + 1 \<le> length r0"
    by (simp add: r0_def A)
  from sprintf_text [OF h0 this]
  obtain r1 where r1: "sprintf_at r0 0 (margin w) = Inr (r1, length (margin w))"
      "length r1 = A" "holds r1 (map of_char (margin w))"
    by (auto simp: r0_def)
  have "length (margin w) + (7 * w + 19) * (w - 0) + 1 \<le> length r1"
    by (simp add: r1(2) A algebra_simps)
  from qr_rows_text [OF r1(3) _ assms(1) this]
  obtain r2 where r2: "qr_rows w d r1 (length (margin w)) 0 =
        Inr (r2, length (margin w) + (7 * w + 19) * (w - 0))"
      "length r2 = A" "holds r2 (map of_char (margin w @ rows))"
    unfolding rows_def using r1(2) by auto
  have idx: "length (margin w) + (7 * w + 19) * (w - 0) = length (margin w @ rows)"
    by (simp add: lrows algebra_simps)
  have "length (map of_char (margin w @ rows) :: byte list) + length (margin w) + 1 \<le> length r2"
    using lt by (simp add: r2(2) A)
  from sprintf_holds [OF r2(3) this]
  obtain r3 where r3: "sprintf_at r2 (length (margin w @ rows)) (margin w) = Inr (r3, length (margin w))"
      "holds r3 (map of_char (margin w @ rows) @ map of_char (margin w) @ [0])"
    by auto
  have "holds r3 (map of_char (qr_text w d) @ [0])"
    using r3(2) by (simp add: qr_text_def rows_def)
  then have c: "cstr r3 0 = Inr (qr_text w d)"
    using qr_text_no_nul by (rule cstr_holds)
  have "qr_render w d = Inr (qr_text w d)"
    unfolding qr_render_def Let_def A_def [symmetric] r0_def [symmetric]
    by (simp only: r1(1) r2(1) idx r3(1) c bindE_Inr prod.case)
  moreover have "length (qr_text w d) + 1 \<le> qr_alloc w"
    using length_qr_text [of w d] A by (simp add: A_def)
  ultimately show ?thesis by blast
qed

theorem qr_render_fits_witness:
  "length [1 :: byte] = 1 * 1 \<and> (1 :: nat) * 1 < 2 ^ 31
   \<and> qr_render 1 [1] = Inr (qr_text 1 [1]) \<and> length (qr_text 1 [1]) + 1 \<le> qr_alloc 1"
  using qr_render_fits [of "[1]" 1] by simp

section \<open>Results on the commands\<close>

subsection \<open>Runs on concrete command lines\<close>

lemma scan_reseal: "getopt_scan [] [''reseal''] = ([], [''reseal''])"
  by code_simp
lemma scan_calc_t: "getopt_scan [] [''-t'', ''calculate''] = ([Opt CHR ''t'' None None], [''calculate''])"
  by code_simp
lemma scan_calc: "getopt_scan [] [''calculate''] = ([], [''calculate''])"
  by code_simp
lemma scan_clean: "getopt_scan [] [''clean''] = ([], [''clean''])"
  by code_simp
lemma scan_h: "getopt_scan [] [''-h''] = ([bad_opt], [])"
  by code_simp
lemma scan_help: "getopt_scan [] [''--help''] = ([bad_opt], [])"
  by code_simp
lemma scan_N: "getopt_scan [] [''-N'', ''0x018094AF'', ''generate''] =
    ([Opt CHR ''N'' (Some ''0x018094AF'') None], [''generate''])"
  by code_simp
lemma scan_nvindex: "getopt_scan [] [''--nvindex=0x018094AF'', ''generate''] =
    ([Opt CHR ''N'' (Some ''0x018094AF'') (Some 0)], [''generate''])"
  by code_simp
lemma scan_generate: "getopt_scan [] [''generate''] = ([], [''generate''])"
  by code_simp
lemma dec_0: "dec 0 = ''0''"
  by code_simp
lemma pad_42: "zero_pad 6 (dec 42) = ''000042''"
  by code_simp

lemma parse_reseal:
  "parse_opts sc [''tpm2-totp'', ''reseal''] =
     ([], Inr \<lparr>opt_cmd = CMD_RESEAL, opt_nvindex = 0, opt_password = None, opt_time = 0, opt_verbose = 0\<rparr>)"
  by (simp add: parse_opts_def scan_reseal command_of_def)

lemma parse_calc_t:
  "parse_opts sc [''tpm2-totp'', ''-t'', ''calculate''] =
     ([], Inr \<lparr>opt_cmd = CMD_CALCULATE, opt_nvindex = 0, opt_password = None, opt_time = 1, opt_verbose = 0\<rparr>)"
  by (simp add: parse_opts_def scan_calc_t command_of_def)

lemma parse_calc:
  "parse_opts sc [''tpm2-totp'', ''calculate''] =
     ([], Inr \<lparr>opt_cmd = CMD_CALCULATE, opt_nvindex = 0, opt_password = None, opt_time = 0, opt_verbose = 0\<rparr>)"
  by (simp add: parse_opts_def scan_calc command_of_def)

lemma parse_clean:
  "parse_opts sc [''tpm2-totp'', ''clean''] =
     ([], Inr \<lparr>opt_cmd = CMD_CLEAN, opt_nvindex = 0, opt_password = None, opt_time = 0, opt_verbose = 0\<rparr>)"
  by (simp add: parse_opts_def scan_clean command_of_def)

subsection \<open>The claims on the commands\<close>

text \<open>
  \<^bold>\<open>C2\<close>. In a run of the command \<^verbatim>\<open>reseal\<close> the library is called in the order load,
  reseal, delete, store, each call only after the one before has returned success: the calls
  made are the first one, two, three or four of that sequence, according to which call is
  the first to fail. The exit status is 0 exactly when all four succeed. When loading and
  resealing succeed and deleting fails, the status is 1 and there is no call of store.
  \<open>rc1\<close> to \<open>rc4\<close> and the blobs name what the four library functions return.
\<close>

theorem reseal_call_order:
  assumes "parse_opts (sscanf_nvindex w) argv = (evs0, Inr p)" and "opt_cmd p = CMD_RESEAL"
    and "tpm2totp_loadKey_nv w (opt_nvindex p) s0 = ((rc1, keyBlob), s1)"
    and "tpm2totp_reseal w keyBlob (opt_password p) 0 0 s1 = ((rc2, newBlob), s2)"
    and "tpm2totp_deleteKey_nv w (opt_nvindex p) s2 = (rc3, s3)"
    and "tpm2totp_storeKey_nv w newBlob (opt_nvindex p) s3 = (rc4, s4)"
  shows "calls_of (run_events (main w argv s0)) =
       take (if rc1 \<noteq> 0 then 1 else if rc2 \<noteq> 0 then 2 else if rc3 \<noteq> 0 then 3 else 4)
         [LoadKey_nv (opt_nvindex p), Reseal keyBlob (opt_password p) 0 0,
          DeleteKey_nv (opt_nvindex p), StoreKey_nv newBlob (opt_nvindex p)]
     \<and> run_status (main w argv s0) =
         (if rc1 = 0 \<and> rc2 = 0 \<and> rc3 = 0 \<and> rc4 = 0 then Exit 0 else Exit 1)
     \<and> (rc1 = 0 \<and> rc2 = 0 \<and> rc3 \<noteq> 0 \<longrightarrow>
          run_status (main w argv s0) = Exit 1
          \<and> (\<forall>b i. StoreKey_nv b i \<notin> set (calls_of (run_events (main w argv s0)))))"
  unfolding main_reseal [OF assms] by (simp add: run_status_def run_events_def)

theorem reseal_call_order_witness:
  "calls_of (run_events (main (stub_world 5 0) [''tpm2-totp'', ''reseal''] ())) =
       [LoadKey_nv 0, Reseal [1, 2, 3] None 0 0, DeleteKey_nv 0]
   \<and> run_status (main (stub_world 5 0) [''tpm2-totp'', ''reseal''] ()) = Exit 1
   \<and> calls_of (run_events (main (stub_world 0 0) [''tpm2-totp'', ''reseal''] ())) =
       [LoadKey_nv 0, Reseal [1, 2, 3] None 0 0, DeleteKey_nv 0, StoreKey_nv [4, 5, 6] 0]
   \<and> run_status (main (stub_world 0 0) [''tpm2-totp'', ''reseal''] ()) = Exit 0"
proof -
  have a: "tpm2totp_loadKey_nv (stub_world rc c) 0 () = ((0, [1, 2, 3]), ())"
    and b: "tpm2totp_reseal (stub_world rc c) [1, 2, 3] None 0 0 () = ((0, [4, 5, 6]), ())"
    and d: "tpm2totp_deleteKey_nv (stub_world rc c) 0 () = (rc, ())"
    and e: "tpm2totp_storeKey_nv (stub_world rc c) [4, 5, 6] 0 () = (0, ())" for rc c
    by (simp_all add: stub_world_def)
  show ?thesis
    using reseal_call_order [OF parse_reseal _ _ _ _ _, of "stub_world 5 0" "()" 0 "[1, 2, 3]" "()" 0 "[4, 5, 6]" "()" 5 "()" 0 "()"]
      reseal_call_order [OF parse_reseal _ _ _ _ _, of "stub_world 0 0" "()" 0 "[1, 2, 3]" "()" 0 "[4, 5, 6]" "()" 0 "()" 0 "()"]
    by (simp add: a b d e)
qed

text \<open>
  \<^bold>\<open>C3\<close> (the code does not do what the claim says). The claim: the value of
  \<^verbatim>\<open>-N\<close>/\<^verbatim>\<open>--nvindex\<close> is stored in the options, and without the option the index is
  \<^verbatim>\<open>0x018094AF\<close>. The option string and the table make \<^verbatim>\<open>getopt_long\<close> return
  \<^verbatim>\<open>'N'\<close> for the option, but the \<^verbatim>\<open>switch\<close> parses the index under \<^verbatim>\<open>case 'e'\<close>, so
  \<^verbatim>\<open>'N'\<close> reaches the default branch: the run ends with status 1 before any library
  call. Without the option the index passed on is 0; the value \<^verbatim>\<open>0x018094AF\<close> occurs in
  the help text only.
\<close>

theorem nvindex_option_rejected:
  "main w [''tpm2-totp'', ''-N'', ''0x018094AF'', ''generate''] s =
     (Exit 1, [Stderr ''Unknown option at index 0.\<newline>\<newline>'', Stderr help_text], s)
   \<and> main w [''tpm2-totp'', ''--nvindex=0x018094AF'', ''generate''] s =
     (Exit 1, [Stderr ''Unknown option at index 0.\<newline>\<newline>'', Stderr help_text], s)
   \<and> parse_opts sc [''tpm2-totp'', ''generate''] =
     ([], Inr \<lparr>opt_cmd = CMD_GENERATE, opt_nvindex = 0, opt_password = None, opt_time = 0, opt_verbose = 0\<rparr>)"
  by (simp add: main_def parse_opts_def scan_N scan_nvindex scan_generate command_of_def dec_0)

text \<open>
  \<^bold>\<open>C4\<close> (the code does not do what the claim says). The claim: \<^verbatim>\<open>-h\<close> and
  \<^verbatim>\<open>--help\<close> print the usage text and end the process with status 0. The \<^verbatim>\<open>switch\<close> has
  that branch (\<^verbatim>\<open>case 'h'\<close>, line 75), but neither the option string \<^verbatim>\<open>"N:P:tv"\<close> nor
  the table of long options knows the option, so \<^verbatim>\<open>getopt_long\<close> returns \<^verbatim>\<open>'?'\<close>: the
  usage text goes to the error stream after an error message, nothing is written to the
  standard output, and the status is 1.
\<close>

theorem help_option_exits_1:
  "main w [''tpm2-totp'', ''-h''] s =
     (Exit 1, [Stderr ''Unknown option at index 0.\<newline>\<newline>'', Stderr help_text], s)
   \<and> main w [''tpm2-totp'', ''--help''] s =
     (Exit 1, [Stderr ''Unknown option at index 0.\<newline>\<newline>'', Stderr help_text], s)"
  by (simp add: main_def parse_opts_def scan_h scan_help bad_opt_def dec_0)

text \<open>
  \<^bold>\<open>C9\<close>. A run of \<^verbatim>\<open>calculate\<close> in which loading and calculating succeed (and, with
  the time flag, \<^verbatim>\<open>strftime\<close> does) writes to the standard output the formatted time
  exactly when the time flag is set, followed by the code, and nothing else; the code, a
  number of at most six digits as the library computes it, is padded with zeros to exactly
  six decimal digits, so that a digit and no line break ends the output; the status is 0.
  The output is a function of what the library returns. The witness has the code 42, which
  is written as \<^verbatim>\<open>000042\<close>.
\<close>

theorem calculate_output:
  assumes "parse_opts (sscanf_nvindex w) argv = (evs0, Inr p)" and "opt_cmd p = CMD_CALCULATE"
    and "tpm2totp_loadKey_nv w (opt_nvindex p) s0 = ((0, keyBlob), s1)"
    and "tpm2totp_calculate w keyBlob s1 = ((0, now, totp), s2)"
    and "opt_time p \<noteq> 0 \<longrightarrow> strftime 99 (strftime_local w now) \<noteq> 0"
    and "unat totp < 1000000"
  shows "stdout_of (run_events (main w argv s0)) =
       (if opt_time p \<noteq> 0 then strftime_local w now else []) @ zero_pad 6 (dec (unat totp))
     \<and> length (zero_pad 6 (dec (unat totp))) = 6
     \<and> set (zero_pad 6 (dec (unat totp))) \<subseteq> set ''0123456789''
     \<and> run_status (main w argv s0) = Exit 0"
  unfolding main_calculate [OF assms(1-5)]
  using six_digits [OF assms(6)] fmt_06ld_small [OF assms(6)]
  by (simp add: run_status_def run_events_def)

theorem calculate_output_witness:
  "stdout_of (run_events (main (stub_world 0 42) [''tpm2-totp'', ''-t'', ''calculate''] ())) =
       ''2018-10-20 01:46:40: 000042''
   \<and> stdout_of (run_events (main (stub_world 0 42) [''tpm2-totp'', ''calculate''] ())) = ''000042''
   \<and> run_status (main (stub_world 0 42) [''tpm2-totp'', ''calculate''] ()) = Exit 0"
proof -
  have a: "tpm2totp_loadKey_nv (stub_world 0 42) 0 () = ((0, [1, 2, 3]), ())"
    and b: "tpm2totp_calculate (stub_world 0 42) [1, 2, 3] () = ((0, 1540000000, 42), ())"
    and c: "strftime_local (stub_world 0 42) t = ''2018-10-20 01:46:40: ''" for t
    by (simp_all add: stub_world_def)
  show ?thesis
    using calculate_output [OF parse_calc_t _ _ _ _ _, of "stub_world 0 42" "()" "[1, 2, 3]" "()" 1540000000 42 "()"]
      calculate_output [OF parse_calc _ _ _ _ _, of "stub_world 0 42" "()" "[1, 2, 3]" "()" 1540000000 42 "()"]
    by (simp add: a b c strftime_def pad_42)
qed

text \<open>
  \<^bold>\<open>C10\<close>. When \<^verbatim>\<open>parse_opts\<close> returns, \<^verbatim>\<open>opt.cmd\<close> is one of the five commands and not
  \<^verbatim>\<open>CMD_NONE\<close>, so that the \<^verbatim>\<open>switch\<close> of \<^verbatim>\<open>main\<close> runs the branch of one command and
  never its default branch.
\<close>

theorem parse_opts_sets_command:
  assumes "snd (parse_opts sc argv) = Inr p"
  shows "opt_cmd p \<in> {CMD_GENERATE, CMD_CALCULATE, CMD_RESEAL, CMD_RECOVER, CMD_CLEAN}
    \<and> main_switch w p \<in> {cmd_generate w p, cmd_calculate w p, cmd_reseal w p, cmd_recover w p, cmd_clean w p}"
proof -
  obtain evs where "parse_opts sc argv = (evs, Inr p)"
    using assms by (cases "parse_opts sc argv") simp
  then have "opt_cmd p \<noteq> CMD_NONE" by (rule parse_opts_Inr(2))
  then show ?thesis by (cases "opt_cmd p") (simp_all add: main_switch_def)
qed

theorem parse_opts_sets_command_witness:
  "snd (parse_opts (sscanf_nvindex (stub_world 0 0)) [''tpm2-totp'', ''clean'']) =
      Inr \<lparr>opt_cmd = CMD_CLEAN, opt_nvindex = 0, opt_password = None, opt_time = 0, opt_verbose = 0\<rparr>
   \<and> opt_cmd \<lparr>opt_cmd = CMD_CLEAN, opt_nvindex = 0, opt_password = None, opt_time = 0, opt_verbose = 0\<rparr>
       \<in> {CMD_GENERATE, CMD_CALCULATE, CMD_RESEAL, CMD_RECOVER, CMD_CLEAN}"
  using parse_opts_sets_command [of "sscanf_nvindex (stub_world 0 0)" "[''tpm2-totp'', ''clean'']"
      "\<lparr>opt_cmd = CMD_CLEAN, opt_nvindex = 0, opt_password = None, opt_time = 0, opt_verbose = 0\<rparr>"]
  by (simp add: parse_clean)

end
